theory Spec2Isabelle
  imports Main
begin

section \<open>Errors raised by the Python code\<close>

text \<open>
  Every \<open>raise\<close>, failed \<open>assert\<close> and failing library call of
  \<open>dask_groupby/xarray.py\<close> is a value of this type. The two errors the module
  raises itself carry their message.
\<close>

datatype error =
    ValueError string
  | NotImplementedError string
  | IndexError
  | KeyError
  | TypeError
  | AssertionError

section \<open>The numpy operations used by the chunk optimiser\<close>

text \<open>
  Array elements, indices and chunk sizes are Python/numpy integers; they are bounded by
  the length of an array along one dimension, so they are modelled as \<open>int\<close>.
\<close>

fun cumsum_from :: "int \<Rightarrow> int list \<Rightarrow> int list" where
  "cumsum_from s [] = []"
| "cumsum_from s (x # xs) = (s + x) # cumsum_from (s + x) xs"

definition cumsum :: "int list \<Rightarrow> int list" where
  "cumsum xs = cumsum_from 0 xs"

text \<open>\<open>a[i]\<close> for one integer index: negative indices count from the end.\<close>

definition np_getitem :: "'a list \<Rightarrow> int \<Rightarrow> error + 'a" where
  "np_getitem xs i =
     (if i < - int (length xs) \<or> int (length xs) \<le> i then Inl IndexError
      else if i < 0 then Inr (xs ! nat (int (length xs) + i))
      else Inr (xs ! nat i))"

text \<open>\<open>a[idx]\<close> for an integer index array.\<close>

fun np_take :: "'a list \<Rightarrow> int list \<Rightarrow> error + 'a list" where
  "np_take xs [] = Inr []"
| "np_take xs (i # is) =
     (case np_getitem xs i of
        Inl e \<Rightarrow> Inl e
      | Inr v \<Rightarrow> (case np_take xs is of Inl e \<Rightarrow> Inl e | Inr vs \<Rightarrow> Inr (v # vs)))"

text \<open>\<open>np.unique\<close>: the sorted distinct values.\<close>

definition unique :: "int list \<Rightarrow> int list" where
  "unique xs = sort (remdups xs)"

text \<open>\<open>np.diff\<close>: differences of consecutive entries.\<close>

fun diff :: "int list \<Rightarrow> int list" where
  "diff (a # b # xs) = (b - a) # diff (b # xs)"
| "diff xs = []"

definition arange :: "nat \<Rightarrow> int list" where
  "arange n = map int [0..<n]"

subsection \<open>\<open>numpy_groupies.aggregate\<close> with \<open>func="first"\<close> and \<open>func="last"\<close>\<close>

text \<open>
  The numpy implementation of the library allocates \<open>max(group_idx) + 1\<close> cells holding
  the fill value \<open>0\<close> and assigns \<open>ret[group_idx] = a\<close>, a later assignment to a cell
  replacing an earlier one; for \<open>"first"\<close> both arrays are reversed before. Negative
  group indices are rejected.
\<close>

datatype agg_func = First | Last

fun max_list :: "int list \<Rightarrow> int" where
  "max_list [] = 0"
| "max_list (x # xs) = fold max xs x"

definition scatter :: "int list \<Rightarrow> (int \<times> int) list \<Rightarrow> int list" where
  "scatter ret gvs = fold (\<lambda>(g, v) r. r[nat g := v]) gvs ret"

definition aggregate :: "int list \<Rightarrow> int list \<Rightarrow> agg_func \<Rightarrow> error + int list" where
  "aggregate group_idx a func =
     (if list_ex (\<lambda>g. g < 0) group_idx then Inl (ValueError ''negative indices not supported'')
      else if length group_idx \<noteq> length a
        then Inl (ValueError ''group_idx and a must be of the same length'')
      else if group_idx = [] then Inl (ValueError ''zero-size array to reduction operation maximum'')
      else
        let ret = replicate (nat (max_list group_idx + 1)) 0 in
        Inr (case func of
               Last \<Rightarrow> scatter ret (zip group_idx a)
             | First \<Rightarrow> scatter ret (rev (zip group_idx a))))"

section \<open>\<open>_get_optimal_chunks_for_groups\<close>\<close>

text \<open>One iteration of the loop over \<open>zip(chunkidx, firstidx, lastidx)\<close>.\<close>

fun walk_step :: "int \<times> int \<times> int \<Rightarrow> int list \<Rightarrow> int list" where
  "walk_step (c, f, l) newchunkidx =
     (let \<Delta>f = \<bar>c - f\<bar>; \<Delta>l = \<bar>c - l\<bar> in
      if c = 0 \<or> last newchunkidx > l then newchunkidx
      else if \<Delta>f < \<Delta>l \<and> f > last newchunkidx then newchunkidx @ [f]
      else newchunkidx @ [l + 1])"

fun walk :: "(int \<times> int \<times> int) list \<Rightarrow> int list \<Rightarrow> int list" where
  "walk [] newchunkidx = newchunkidx"
| "walk (t # ts) newchunkidx = walk ts (walk_step t newchunkidx)"

definition get_optimal_chunks_for_groups :: "int list \<Rightarrow> int list \<Rightarrow> error + int list" where
  "get_optimal_chunks_for_groups chunks labels =
     (if chunks = [] then Inl IndexError
      else
        let chunkidx = map (\<lambda>s. s - 1) (cumsum chunks) in
        case np_take labels chunkidx of
          Inl e \<Rightarrow> Inl e
        | Inr at_bounds \<Rightarrow>
        let labels_at_chunk_bounds = unique at_bounds in
        case aggregate labels (arange (length labels)) Last of
          Inl e \<Rightarrow> Inl e
        | Inr last_indexes \<Rightarrow>
        case np_take last_indexes labels_at_chunk_bounds of
          Inl e \<Rightarrow> Inl e
        | Inr lastidx \<Rightarrow>
        if length chunkidx = length lastidx \<and> chunkidx = lastidx then Inr chunks
        else
          case aggregate labels (arange (length labels)) First of
            Inl e \<Rightarrow> Inl e
          | Inr first_indexes \<Rightarrow>
          case np_take first_indexes labels_at_chunk_bounds of
            Inl e \<Rightarrow> Inl e
          | Inr firstidx \<Rightarrow>
          let newchunkidx = walk (zip chunkidx (zip firstidx lastidx)) [0];
              newchunkidx =
                (if last newchunkidx \<noteq> last chunkidx + 1
                 then newchunkidx @ [last chunkidx + 1] else newchunkidx);
              newchunks = diff newchunkidx
          in if sum_list newchunks = sum_list chunks then Inr newchunks
             else Inl AssertionError)"


text \<open>The position of the first occurrence of a value in a list, if there is one.\<close>

fun index_of :: "'a list \<Rightarrow> 'a \<Rightarrow> nat option" where
  "index_of [] y = None"
| "index_of (x # xs) y = (if x = y then Some 0 else map_option Suc (index_of xs y))"

section \<open>Labelled arrays\<close>

text \<open>
  What the module reads of an xarray \<open>DataArray\<close>: its name, its dimension names, its
  shape, and the array behind \<open>.data\<close>. That array is a numpy array (in memory), a dask
  array (not yet computed, carrying its chunk sizes per axis) or some other array type.
  \<open>.chunks\<close> is \<open>None\<close> unless the data is a dask array. A grouping key is a
  \<open>DataArray\<close> of which the coordinates matter too: each coordinate has a name and an
  array of its own.
\<close>

datatype array_data =
    NumpyArray "int list"
  | DaskArray "int list" "int list list"
  | DuckArray "int list"

record data_array =
  da_name :: string
  da_dims :: "string list"
  da_shape :: "int list"
  da_data :: array_data

fun array_values :: "array_data \<Rightarrow> int list" where
  "array_values (NumpyArray vs) = vs"
| "array_values (DaskArray vs chs) = vs"
| "array_values (DuckArray vs) = vs"

record grouping_key = data_array +
  da_coords :: "(string \<times> array_data) list"

fun is_duck_dask_array :: "array_data \<Rightarrow> bool" where
  "is_duck_dask_array (DaskArray vs chs) = True"
| "is_duck_dask_array d = False"

text \<open>
  \<open>dask.is_dask_collection\<close> of a \<open>DataArray\<close>: the object has a dask graph, which
  xarray collects from the variable of the data and from the variable of every
  coordinate.
\<close>

definition is_dask_collection :: "grouping_key \<Rightarrow> bool" where
  "is_dask_collection g \<longleftrightarrow>
     is_duck_dask_array (da_data g) \<or> list_ex is_duck_dask_array (map snd (da_coords g))"

fun is_ndarray :: "array_data \<Rightarrow> bool" where
  "is_ndarray (NumpyArray vs) = True"
| "is_ndarray d = False"

fun array_chunks :: "array_data \<Rightarrow> int list list option" where
  "array_chunks (DaskArray vs chs) = Some chs"
| "array_chunks d = None"

section \<open>\<open>xarray_reduce\<close>: how the groups are determined\<close>

text \<open>
  The part of \<open>xarray_reduce\<close> before the call of \<open>xr.apply_ufunc\<close>: the check on
  the grouping keys, and the expected groups and the group shape. \<open>by\<close> are the keys
  after line 29 has looked the names up. \<open>factorize_\<close> lives in \<open>core\<close>, which is not
  among the sources given, so it is a parameter here. With no key at all, \<open>by[0]\<close> fails.
\<close>

definition xarray_reduce_groups ::
  "(array_data list \<Rightarrow> int list list option \<Rightarrow> int list \<times> int list list \<times> nat list) \<Rightarrow>
   grouping_key list \<Rightarrow> int list list option \<Rightarrow> error + (int list list \<times> nat list)" where
  "xarray_reduce_groups factorize by expected_groups =
     (if length by > 1 \<and> list_ex is_dask_collection by
      then Inl (ValueError ''Grouping by multiple variables will call compute dask variables.'')
      else if by = [] then Inl IndexError
      else if length by > 1 then
        (case factorize (map da_data by) expected_groups of
           (group_idx, expected_groups, group_shape) \<Rightarrow> Inr (expected_groups, group_shape))
      else
        let expected_groups =
              (if expected_groups = None \<and> is_ndarray (da_data (by ! 0))
               then Some [unique (array_values (da_data (by ! 0)))]
               else expected_groups)
        in case expected_groups of
             None \<Rightarrow> Inl (NotImplementedError
               ''Please provided expected_groups if not grouping by a numpy-backed DataArray'')
           | Some [] \<Rightarrow> Inl IndexError
           | Some (e0 # es) \<Rightarrow> Inr (e0 # es, [length e0]))"

text \<open>How many of the keys are dask collections.\<close>

definition lazy_keys :: "grouping_key list \<Rightarrow> nat" where
  "lazy_keys by = length (filter is_dask_collection by)"

section \<open>Multi-key codes and the densifying \<open>wrapper\<close>\<close>

text \<open>
  Modelled from the spec: \<open>factorize_\<close> (\<open>dask_groupby/core.py\<close>) is not among the
  sources. The spec gives the combined code of a tuple of per-key indices as
  \<open>idx_0 + idx_1*shape_0 + idx_2*shape_0*shape_1 + \<dots>\<close>.
\<close>

fun linearize_spec :: "nat list \<Rightarrow> nat list \<Rightarrow> nat" where
  "linearize_spec (s # shape) (i # idx) = i + s * linearize_spec shape idx"
| "linearize_spec shape idx = 0"

text \<open>
  Modelled from the spec: \<open>factorize_\<close> as a whole, for keys that are flat arrays.
  Each key has its levels (the expected values given for it, else its sorted unique
  values) and every element the index of its value among them; the codes combine the
  indices of the keys, the shape is the number of levels per key. An element whose value
  is no level of its key has no group: its code is \<open>-1\<close>.
\<close>

definition factorize_spec ::
  "array_data list \<Rightarrow> int list list option \<Rightarrow> int list \<times> int list list \<times> nat list" where
  "factorize_spec keys expected_groups =
     (let levels = (case expected_groups of
                      Some given \<Rightarrow> given
                    | None \<Rightarrow> map (\<lambda>k. unique (array_values k)) keys);
          group_shape = map length levels;
          indices = map (\<lambda>(k, lv). map (index_of lv) (array_values k)) (zip keys levels);
          group_idx = map (\<lambda>p. let idx = map (\<lambda>ixs. ixs ! p) indices in
                                if None \<in> set idx then - 1
                                else int (linearize_spec group_shape (map the idx)))
                        [0..<(case keys of [] \<Rightarrow> 0 | k # ks \<Rightarrow> length (array_values k))]
      in (group_idx, levels, group_shape))"

text \<open>
  Modelled from the spec: \<open>reindex_\<close> (\<open>dask_groupby/core.py\<close>) is not among the
  sources. The spec has it start from a buffer holding the fill value, one cell per
  target code, and write each value of the partial result into the cell of its code;
  a later write replaces an earlier one.
\<close>

definition reindex :: "'a list \<Rightarrow> nat list \<Rightarrow> nat list \<Rightarrow> 'a \<Rightarrow> 'a list" where
  "reindex array from_codes to_codes fill_value =
     fold (\<lambda>(code, v) buf. case index_of to_codes code of None \<Rightarrow> buf | Some p \<Rightarrow> buf[p := v])
       (zip from_codes array) (replicate (length to_codes) fill_value)"

text \<open>
  A numpy array of any rank, and \<open>reshape\<close> of a flat array in numpy's default (C)
  order: the last axis is contiguous in the flat array.
\<close>

datatype 'a ndarray = Cell 'a | Axis "'a ndarray list"

fun reshape_c :: "nat list \<Rightarrow> 'a list \<Rightarrow> 'a ndarray" where
  "reshape_c [] xs = Cell (hd xs)"
| "reshape_c (d # ds) xs =
     Axis (map (\<lambda>k. reshape_c ds (take (prod_list ds) (drop (k * prod_list ds) xs))) [0..<d])"

definition reshape :: "nat list \<Rightarrow> 'a list \<Rightarrow> error + 'a ndarray" where
  "reshape shp xs =
     (if length xs \<noteq> prod_list shp then Inl (ValueError ''cannot reshape array'')
      else Inr (reshape_c shp xs))"

fun nd_get :: "'a ndarray \<Rightarrow> nat list \<Rightarrow> 'a option" where
  "nd_get (Cell x) [] = Some x"
| "nd_get (Axis xs) (i # idx) = (if i < length xs then nd_get (xs ! i) idx else None)"
| "nd_get a idx = None"

text \<open>
  The \<open>wrapper\<close> inside \<open>xarray_reduce\<close>, for a result with the group axis only.
  \<open>groupby_reduce\<close> is in \<open>core\<close>; its two results are arguments here.
\<close>

definition wrapper ::
  "nat \<Rightarrow> nat list \<Rightarrow> 'a \<Rightarrow> 'a list \<Rightarrow> nat list \<Rightarrow> error + 'a ndarray" where
  "wrapper n_by group_shape fill_value result groups =
     (if n_by > 1 then
        reshape group_shape
          (reindex result groups [0..<prod_list group_shape] fill_value)
      else Inr (Axis (map Cell result)))"

text \<open>
  The position numpy's C order gives a multi-index in the flat array, and the
  multi-index of a flat position.
\<close>

fun ravel_c :: "nat list \<Rightarrow> nat list \<Rightarrow> nat" where
  "ravel_c (d # ds) (i # idx) = i * prod_list ds + ravel_c ds idx"
| "ravel_c shp idx = 0"

fun unravel_c :: "nat list \<Rightarrow> nat \<Rightarrow> nat list" where
  "unravel_c [] code = []"
| "unravel_c (d # ds) code = (code div prod_list ds) # unravel_c ds (code mod prod_list ds)"

definition valid_index :: "nat list \<Rightarrow> nat list \<Rightarrow> bool" where
  "valid_index shp idx \<longleftrightarrow> list_all2 (\<lambda>i d. i < d) idx shp"

section \<open>\<open>rechunk_to_group_boundaries\<close>\<close>

text \<open>
  Arrays are objects: the store holds them by address, and a function returns an
  address. \<open>array.chunk\<close> builds a new object and leaves the old one as it was; every call
  of it is logged, so that the number of re-partitions issued can be counted.
\<close>

record world =
  objects :: "data_array list"
  chunk_calls :: "(nat \<times> string \<times> int list) list"

definition get_axis_num :: "data_array \<Rightarrow> string \<Rightarrow> error + nat" where
  "get_axis_num array dim =
     (case index_of (da_dims array) dim of
        None \<Rightarrow> Inl (ValueError ''dimension not found in array dimensions'')
      | Some axis \<Rightarrow> Inr axis)"

text \<open>
  \<open>array.chunk({dim: newchunks})\<close> of xarray: a new array with the same values and
  the chunks along \<open>dim\<close> replaced. Chunks that do not add up to the length of the
  dimension are rejected, and so is a negative chunk size.
\<close>

definition chunk :: "world \<Rightarrow> nat \<Rightarrow> string \<Rightarrow> int list \<Rightarrow> error + (world \<times> nat)" where
  "chunk w ref dim newchunks =
     (let array = objects w ! ref in
      case get_axis_num array dim of
        Inl e \<Rightarrow> Inl e
      | Inr axis \<Rightarrow>
        if sum_list newchunks \<noteq> da_shape array ! axis
        then Inl (ValueError ''Chunks do not add up to shape'')
        else if list_ex (\<lambda>c. c < 0) newchunks then Inl IndexError
        else
          let chs = (case da_data array of
                       DaskArray vs chs \<Rightarrow> chs
                     | d \<Rightarrow> map (\<lambda>n. [n]) (da_shape array));
              new = array\<lparr>da_data := DaskArray (array_values (da_data array)) (chs[axis := newchunks])\<rparr>
          in Inr (w\<lparr>objects := objects w @ [new],
                    chunk_calls := chunk_calls w @ [(ref, dim, newchunks)]\<rparr>,
                  length (objects w)))"

definition rechunk_to_group_boundaries ::
  "world \<Rightarrow> nat \<Rightarrow> string \<Rightarrow> array_data \<Rightarrow> error + (world \<times> nat)" where
  "rechunk_to_group_boundaries w array dim labels_data =
     (case get_axis_num (objects w ! array) dim of
        Inl e \<Rightarrow> Inl e
      | Inr axis \<Rightarrow>
        (case array_chunks (da_data (objects w ! array)) of
           None \<Rightarrow> Inl TypeError
         | Some all_chunks \<Rightarrow>
           (case np_getitem all_chunks (int axis) of
              Inl e \<Rightarrow> Inl e
            | Inr chunks \<Rightarrow>
              (case get_optimal_chunks_for_groups chunks (array_values labels_data) of
                 Inl e \<Rightarrow> Inl e
               | Inr newchunks \<Rightarrow>
                 if newchunks = chunks then Inr (w, array)
                 else chunk w array dim newchunks))))"

section \<open>\<open>resample_reduce\<close>: the label array\<close>

record slice =
  start :: int
  stop :: "int option"

text \<open>\<open>idx * np.ones((k,), dtype=np.int32)\<close>; a negative length is an error.\<close>

definition idx_times_ones :: "nat \<Rightarrow> int \<Rightarrow> error + int list" where
  "idx_times_ones idx k =
     (if k < 0 then Inl (ValueError ''negative dimensions are not allowed'')
      else Inr (map (\<lambda>one. int idx * one) (replicate (nat k) 1)))"

text \<open>
  The loop over \<open>enumerate(resampler._group_indices)\<close> that fills \<open>tostack\<close>.
  \<open>sizes_dim\<close> is what \<open>resampler._obj.sizes\<close> has for the grouping dimension; the
  loop looks it up only for a slice whose \<open>stop\<close> is \<open>None\<close>, and a dimension that the
  array does not have is a \<open>KeyError\<close> there.
\<close>

fun tostack :: "int option \<Rightarrow> nat \<Rightarrow> slice list \<Rightarrow> error + int list list" where
  "tostack sizes_dim idx [] = Inr []"
| "tostack sizes_dim idx (slicer # rest) =
     (case (case stop slicer of
              None \<Rightarrow> (case sizes_dim of None \<Rightarrow> Inl KeyError | Some n \<Rightarrow> Inr n)
            | Some e \<Rightarrow> Inr e) of
        Inl e \<Rightarrow> Inl e
      | Inr stop_index \<Rightarrow>
        (case idx_times_ones idx (stop_index - start slicer) of
           Inl e \<Rightarrow> Inl e
         | Inr a \<Rightarrow> (case tostack sizes_dim (Suc idx) rest of
                       Inl e \<Rightarrow> Inl e
                     | Inr as \<Rightarrow> Inr (a # as))))"

definition hstack :: "int list list \<Rightarrow> error + int list" where
  "hstack arrays =
     (if arrays = [] then Inl (ValueError ''need at least one array to concatenate'')
      else Inr (concat arrays))"

definition resample_labels :: "int option \<Rightarrow> slice list \<Rightarrow> error + int list" where
  "resample_labels sizes_dim group_indices =
     (case tostack sizes_dim 0 group_indices of Inl e \<Rightarrow> Inl e | Inr arrays \<Rightarrow> hstack arrays)"

text \<open>
  \<open>resample_reduce\<close> up to the call of \<open>xarray_reduce\<close>: it builds the labels and,
  when the array is chunked, re-partitions it with them. The dimension is looked up in
  the loop as said above, and again by \<open>rechunk_to_group_boundaries\<close>.
\<close>

definition resample_reduce_rechunk ::
  "world \<Rightarrow> nat \<Rightarrow> string \<Rightarrow> slice list \<Rightarrow> error + (world \<times> nat \<times> int list)" where
  "resample_reduce_rechunk w array dim group_indices =
     (let sizes_dim = map_option (\<lambda>axis. da_shape (objects w ! array) ! axis)
                        (index_of (da_dims (objects w ! array)) dim)
      in case resample_labels sizes_dim group_indices of
           Inl e \<Rightarrow> Inl e
         | Inr by \<Rightarrow>
           if array_chunks (da_data (objects w ! array)) \<noteq> None then
             (case rechunk_to_group_boundaries w array dim (NumpyArray by) of
                Inl e \<Rightarrow> Inl e
              | Inr (w', array') \<Rightarrow> Inr (w', array', by))
           else Inr (w, array, by))"

text \<open>
  The slices xarray gives a resampler: consecutive, the first one starting at \<open>0\<close>, and
  the last one open or ending at the length of the dimension.
\<close>

fun tiles :: "int \<Rightarrow> int \<Rightarrow> slice list \<Rightarrow> bool" where
  "tiles dim_size p [] = False"
| "tiles dim_size p [s] =
     (start s = p \<and> p \<le> dim_size \<and> (stop s = None \<or> stop s = Some dim_size))"
| "tiles dim_size p (s # t # ss) =
     (start s = p \<and>
      (case stop s of None \<Rightarrow> False | Some e \<Rightarrow> p \<le> e \<and> tiles dim_size e (t # ss)))"

text \<open>Where a slice ends: \<open>slicer.stop\<close>, or the length of the dimension if that is \<open>None\<close>.\<close>

definition slice_stop :: "int \<Rightarrow> slice \<Rightarrow> int" where
  "slice_stop dim_size slicer = (case stop slicer of None \<Rightarrow> dim_size | Some e \<Rightarrow> e)"

section \<open>The vocabulary of the statements\<close>

text \<open>A Partitioning: a non-empty sequence of positive chunk sizes.\<close>

definition partitioning :: "int list \<Rightarrow> bool" where
  "partitioning chunks \<longleftrightarrow> chunks \<noteq> [] \<and> list_all (\<lambda>c. 0 < c) chunks"

text \<open>A GroupCode array: non-negative integers.\<close>

definition group_codes :: "int list \<Rightarrow> bool" where
  "group_codes labels \<longleftrightarrow> list_all (\<lambda>g. 0 \<le> g) labels"

text \<open>Index \<open>i\<close> holds the last, respectively the first, occurrence of its label.\<close>

definition is_last_occurrence :: "int list \<Rightarrow> int \<Rightarrow> bool" where
  "is_last_occurrence labels i \<longleftrightarrow>
     0 \<le> i \<and> i < int (length labels) \<and> labels ! nat i \<notin> set (drop (Suc (nat i)) labels)"

definition is_first_occurrence :: "int list \<Rightarrow> int \<Rightarrow> bool" where
  "is_first_occurrence labels i \<longleftrightarrow>
     0 \<le> i \<and> i < int (length labels) \<and> labels ! nat i \<notin> set (take (nat i) labels)"

text \<open>The index of the last element of every chunk, and the sorted labels found there.\<close>

definition chunk_ends :: "int list \<Rightarrow> int list" where
  "chunk_ends chunks = map (\<lambda>s. s - 1) (cumsum chunks)"

definition bound_labels :: "int list \<Rightarrow> int list \<Rightarrow> int list" where
  "bound_labels chunks labels = unique (map (\<lambda>i. labels ! nat i) (chunk_ends chunks))"

text \<open>
  The invariant of the greedy walk: the boundaries emitted so far start at \<open>0\<close>, increase
  strictly, and each one after \<open>0\<close> directly follows the last element of a group.
\<close>

definition walk_inv :: "int list \<Rightarrow> int list \<Rightarrow> bool" where
  "walk_inv labels acc \<longleftrightarrow>
     acc \<noteq> [] \<and> hd acc = 0 \<and> sorted_wrt (<) acc \<and>
     (\<forall>b\<in>set acc. b = 0 \<or> is_last_occurrence labels (b - 1))"

section \<open>Facts about the numpy operations\<close>

lemma length_cumsum_from: "length (cumsum_from s xs) = length xs"
  by (induction xs arbitrary: s) auto

lemma last_cumsum_from: "xs \<noteq> [] \<Longrightarrow> last (cumsum_from s xs) = s + sum_list xs"
proof (induction xs arbitrary: s)
  case Nil
  then show ?case by simp
next
  case (Cons x xs)
  then show ?case by (cases xs) auto
qed

lemma cumsum_from_bounds:
  "\<forall>x\<in>set xs. 0 < x \<Longrightarrow> y \<in> set (cumsum_from s xs) \<Longrightarrow> s < y \<and> y \<le> s + sum_list xs"
proof (induction xs arbitrary: s)
  case Nil
  then show ?case by simp
next
  case (Cons x xs)
  have nonneg: "0 \<le> sum_list xs"
    using Cons.prems(1) by (simp add: sum_list_nonneg less_imp_le)
  from Cons.prems(2) consider "y = s + x" | "y \<in> set (cumsum_from (s + x) xs)"
    by auto
  then show ?case
  proof cases
    case 1
    then show ?thesis using Cons.prems(1) nonneg by simp
  next
    case 2
    then have "s + x < y \<and> y \<le> s + x + sum_list xs"
      using Cons.IH[of "s + x"] Cons.prems(1) by simp
    then show ?thesis using Cons.prems(1) by simp
  qed
qed

lemma cumsum_from_strict:
  "\<forall>x\<in>set xs. 0 < x \<Longrightarrow> sorted_wrt (<) (cumsum_from s xs)"
proof (induction xs arbitrary: s)
  case Nil
  then show ?case by simp
next
  case (Cons x xs)
  then have "\<forall>y\<in>set (cumsum_from (s + x) xs). s + x < y"
    using cumsum_from_bounds[of xs _ "s + x"] by auto
  then show ?case using Cons by simp
qed

lemma cumsum_from_diff: "cumsum_from a (diff (a # xs)) = xs"
  by (induction xs arbitrary: a) auto

lemma diff_cumsum_from: "diff (s # cumsum_from s xs) = xs"
  by (induction xs arbitrary: s) auto

lemma diff_positive:
  "sorted_wrt (<) xs \<Longrightarrow> d \<in> set (diff xs) \<Longrightarrow> 0 < d"
  by (induction xs rule: diff.induct) auto

lemma sum_list_diff: "sum_list (diff (a # xs)) = last (a # xs) - a"
  by (induction xs arbitrary: a) auto

lemma diff_eq_Nil: "diff xs = [] \<longleftrightarrow> length xs \<le> 1"
  by (induction xs rule: diff.induct) auto

lemma np_take_in_range:
  "\<forall>i\<in>set is. 0 \<le> i \<and> i < int (length xs) \<Longrightarrow> np_take xs is = Inr (map (\<lambda>i. xs ! nat i) is)"
  by (induction "is") (auto simp: np_getitem_def)

lemma set_unique: "set (unique xs) = set xs"
  by (simp add: unique_def)

lemma unique_strict_id: "sorted_wrt (<) xs \<Longrightarrow> unique xs = xs"
proof -
  assume a: "sorted_wrt (<) xs"
  then have "distinct xs" "sorted xs"
    by (simp_all add: strict_sorted_iff)
  then show ?thesis by (simp add: unique_def distinct_remdups_id sorted_sort_id)
qed

subsection \<open>What \<open>aggregate\<close> stores\<close>

lemma length_scatter: "length (scatter ret gvs) = length ret"
  unfolding scatter_def by (induction gvs arbitrary: ret) auto

lemma scatter_append: "scatter ret (as @ bs) = scatter (scatter ret as) bs"
  by (simp add: scatter_def)

lemma scatter_untouched:
  "\<forall>p\<in>set gvs. nat (fst p) \<noteq> k \<Longrightarrow> scatter ret gvs ! k = ret ! k"
  unfolding scatter_def by (induction gvs arbitrary: ret) auto

lemma scatter_final:
  assumes "nat g < length ret" and "\<forall>p\<in>set bs. nat (fst p) \<noteq> nat g"
  shows "scatter ret (as @ (g, v) # bs) ! nat g = v"
proof -
  have "scatter ret (as @ (g, v) # bs) = scatter ((scatter ret as)[nat g := v]) bs"
    by (simp add: scatter_def)
  then show ?thesis
    using assms by (simp add: scatter_untouched length_scatter)
qed

lemma le_max_list: "x \<in> set xs \<Longrightarrow> x \<le> max_list xs"
proof -
  have fold_ge: "\<And>a ys. a \<le> fold max ys (a::int)"
  proof -
    fix a :: int and ys show "a \<le> fold max ys a"
      by (induction ys arbitrary: a) (auto intro: order_trans[OF max.cobounded2])
  qed
  have fold_mem: "\<And>a ys y. y \<in> set ys \<Longrightarrow> y \<le> fold max ys (a::int)"
  proof -
    fix a :: int and ys y show "y \<in> set ys \<Longrightarrow> y \<le> fold max ys a"
    proof (induction ys arbitrary: a)
      case Nil then show ?case by simp
    next
      case (Cons z zs)
      then show ?case using fold_ge[of "max z a" zs] by auto
    qed
  qed
  assume "x \<in> set xs"
  then show ?thesis using fold_ge fold_mem by (cases xs) auto
qed

lemma zip_arange_split:
  "zip (xs @ g # ys) (arange (length (xs @ g # ys))) =
     zip xs (arange (length xs)) @ (g, int (length xs)) #
     zip ys (map int [Suc (length xs)..<length (xs @ g # ys)])"
proof -
  define n where "n = length (xs @ g # ys)"
  have lt: "length xs < n" by (simp add: n_def)
  have t: "take (length xs) (arange n) = arange (length xs)"
    using lt by (simp add: arange_def take_map)
  have u: "[length xs..<n] = length xs # [Suc (length xs)..<n]"
    using lt by (rule upt_conv_Cons)
  have d: "drop (length xs) (arange n) = int (length xs) # map int [Suc (length xs)..<n]"
    by (simp add: arange_def drop_map u)
  have "zip (xs @ g # ys) (arange n) =
     zip xs (arange (length xs)) @ (g, int (length xs)) # zip ys (map int [Suc (length xs)..<n])"
    by (simp only: zip_append1 t d zip_Cons_Cons)
  then show ?thesis by (simp only: n_def)
qed

lemma length_arange: "length (arange n) = n"
  by (simp add: arange_def)

lemma fst_zip_mem: "p \<in> set (zip xs ys) \<Longrightarrow> fst p \<in> set xs"
  by (cases p) (auto dest: set_zip_leftD)

lemma aggregate_Inr:
  assumes "labels \<noteq> []" and "\<forall>x\<in>set labels. 0 \<le> x"
  shows "aggregate labels (arange (length labels)) func =
     Inr (case func of
            Last \<Rightarrow> scatter (replicate (nat (max_list labels + 1)) 0)
                     (zip labels (arange (length labels)))
          | First \<Rightarrow> scatter (replicate (nat (max_list labels + 1)) 0)
                     (rev (zip labels (arange (length labels)))))"
proof -
  have "\<not> list_ex (\<lambda>g. g < 0) labels"
    using assms(2) by (auto simp: list_ex_iff)
  then show ?thesis
    using assms(1) by (simp add: aggregate_def length_arange Let_def)
qed

lemma length_aggregate:
  assumes "labels \<noteq> []" and "\<forall>x\<in>set labels. 0 \<le> x"
    and "aggregate labels (arange (length labels)) func = Inr r"
  shows "length r = nat (max_list labels + 1)"
  using assms(3) unfolding aggregate_Inr[OF assms(1,2)]
  by (cases func) (auto simp: length_scatter)

lemma label_cell_in_range:
  assumes "\<forall>x\<in>set labels. 0 \<le> x" and "g \<in> set labels"
  shows "nat g < nat (max_list labels + 1)"
  using le_max_list[OF assms(2)] assms by auto

lemma aggregate_last_at:
  assumes nn: "\<forall>x\<in>set labels. 0 \<le> x"
    and split: "labels = xs @ g # ys" and notin: "g \<notin> set ys"
    and agg: "aggregate labels (arange (length labels)) Last = Inr li"
  shows "li ! nat g = int (length xs)"
proof -
  have ne: "labels \<noteq> []" using split by simp
  have g: "g \<in> set labels" using split by simp
  let ?ret = "replicate (nat (max_list labels + 1)) (0::int)"
  let ?bs = "zip ys (map int [Suc (length xs)..<length (xs @ g # ys)])"
  have li: "li = scatter ?ret (zip labels (arange (length labels)))"
    using agg unfolding aggregate_Inr[OF ne nn] by simp
  have z: "zip labels (arange (length labels)) =
      zip xs (arange (length xs)) @ (g, int (length xs)) # ?bs"
    unfolding split by (rule zip_arange_split)
  have untouched: "\<forall>p\<in>set ?bs. nat (fst p) \<noteq> nat g"
  proof
    fix p assume "p \<in> set ?bs"
    then have "fst p \<in> set ys" by (rule fst_zip_mem)
    then have "fst p \<noteq> g" "0 \<le> fst p" using notin nn split by auto
    moreover have "0 \<le> g" using nn g by auto
    ultimately show "nat (fst p) \<noteq> nat g" by simp
  qed
  have "nat g < length ?ret" using label_cell_in_range[OF nn g] by simp
  then show ?thesis
    unfolding li z using untouched by (rule scatter_final)
qed

lemma aggregate_first_at:
  assumes nn: "\<forall>x\<in>set labels. 0 \<le> x"
    and split: "labels = xs @ g # ys" and notin: "g \<notin> set xs"
    and agg: "aggregate labels (arange (length labels)) First = Inr fi"
  shows "fi ! nat g = int (length xs)"
proof -
  have ne: "labels \<noteq> []" using split by simp
  have g: "g \<in> set labels" using split by simp
  let ?ret = "replicate (nat (max_list labels + 1)) (0::int)"
  let ?as = "zip xs (arange (length xs))"
  let ?bs = "zip ys (map int [Suc (length xs)..<length (xs @ g # ys)])"
  have fi: "fi = scatter ?ret (rev (zip labels (arange (length labels))))"
    using agg unfolding aggregate_Inr[OF ne nn] by simp
  have z: "rev (zip labels (arange (length labels))) =
      rev ?bs @ (g, int (length xs)) # rev ?as"
    unfolding split zip_arange_split by simp
  have untouched: "\<forall>p\<in>set (rev ?as). nat (fst p) \<noteq> nat g"
  proof
    fix p assume "p \<in> set (rev ?as)"
    then have "p \<in> set ?as" by simp
    then have "fst p \<in> set xs" by (rule fst_zip_mem)
    then have "fst p \<noteq> g" "0 \<le> fst p" using notin nn split by auto
    moreover have "0 \<le> g" using nn g by auto
    ultimately show "nat (fst p) \<noteq> nat g" by simp
  qed
  have "nat g < length ?ret" using label_cell_in_range[OF nn g] by simp
  then show ?thesis
    unfolding fi z using untouched by (rule scatter_final)
qed

lemma last_indexes_spec:
  assumes nn: "\<forall>x\<in>set labels. 0 \<le> x" and g: "g \<in> set labels"
    and agg: "aggregate labels (arange (length labels)) Last = Inr li"
  shows "is_last_occurrence labels (li ! nat g) \<and> labels ! nat (li ! nat g) = g"
proof -
  from split_list_last[OF g] obtain xs ys where
    split: "labels = xs @ g # ys" and notin: "g \<notin> set ys" by blast
  have at: "li ! nat g = int (length xs)"
    using aggregate_last_at[OF nn split notin agg] .
  show ?thesis
    unfolding at using notin by (simp add: is_last_occurrence_def split)
qed

lemma first_indexes_spec:
  assumes nn: "\<forall>x\<in>set labels. 0 \<le> x" and g: "g \<in> set labels"
    and agg: "aggregate labels (arange (length labels)) First = Inr fi"
  shows "is_first_occurrence labels (fi ! nat g) \<and> labels ! nat (fi ! nat g) = g"
proof -
  from split_list_first[OF g] obtain xs ys where
    split: "labels = xs @ g # ys" and notin: "g \<notin> set xs" by blast
  have at: "fi ! nat g = int (length xs)"
    using aggregate_first_at[OF nn split notin agg] .
  show ?thesis
    unfolding at using notin by (simp add: is_first_occurrence_def split)
qed

text \<open>An index that is the last occurrence of its label is what \<open>aggregate\<close> stores for it.\<close>

lemma last_indexes_at_last_occurrence:
  assumes nn: "\<forall>x\<in>set labels. 0 \<le> x" and lo: "is_last_occurrence labels c"
    and agg: "aggregate labels (arange (length labels)) Last = Inr li"
  shows "li ! nat (labels ! nat c) = c"
proof -
  have c: "0 \<le> c" "nat c < length labels"
    and notin: "labels ! nat c \<notin> set (drop (Suc (nat c)) labels)"
    using lo by (auto simp: is_last_occurrence_def)
  have split: "labels = take (nat c) labels @ labels ! nat c # drop (Suc (nat c)) labels"
    using c(2) by (rule id_take_nth_drop)
  have "li ! nat (labels ! nat c) = int (length (take (nat c) labels))"
    using aggregate_last_at[OF nn split notin agg] .
  then show ?thesis using c by simp
qed

section \<open>The greedy walk keeps its invariant\<close>

lemma strict_le_last:
  "sorted_wrt (<) acc \<Longrightarrow> x \<in> set acc \<Longrightarrow> x \<le> last (acc::int list)"
proof (induction acc)
  case Nil
  then show ?case by simp
next
  case (Cons a acc)
  show ?case
  proof (cases "acc = []")
    case True
    then show ?thesis using Cons.prems by simp
  next
    case False
    then have "last acc \<in> set acc" by simp
    then have lt: "a < last acc" using Cons.prems(1) by simp
    show ?thesis
    proof (cases "x = a")
      case True
      then show ?thesis using lt False by simp
    next
      case neq: False
      then have "x \<le> last acc" using Cons by simp
      then show ?thesis using False by simp
    qed
  qed
qed

lemma strict_snoc:
  assumes "sorted_wrt (<) acc" and "acc \<noteq> []" and "last acc < (y::int)"
  shows "sorted_wrt (<) (acc @ [y])"
proof -
  have "\<forall>x\<in>set acc. x \<le> last acc"
    using assms(1) by (auto intro: strict_le_last)
  then have "\<forall>x\<in>set acc. x < y" using assms(3) by auto
  then show ?thesis using assms(1) by (simp add: sorted_wrt_append)
qed

lemma first_occurrence_boundary:
  assumes srt: "sorted labels" and fo: "is_first_occurrence labels f" and pos: "0 < f"
  shows "is_last_occurrence labels (f - 1)"
proof -
  define i where "i = nat f"
  have i: "0 < i" "i < length labels" and f: "f = int i"
    and notin: "labels ! i \<notin> set (take i labels)"
    using fo pos by (auto simp: is_first_occurrence_def i_def)
  have prev: "labels ! (i - 1) \<in> set (take i labels)"
    using i by (auto simp: in_set_conv_nth intro!: exI[of _ "i - 1"])
  have "labels ! (i - 1) \<le> labels ! i"
    using srt i by (auto intro: sorted_nth_mono)
  with prev notin have lt: "labels ! (i - 1) < labels ! i"
    by (metis order_le_less)
  have "labels ! (i - 1) \<notin> set (drop i labels)"
  proof
    assume "labels ! (i - 1) \<in> set (drop i labels)"
    then obtain k where k: "k < length labels - i" "drop i labels ! k = labels ! (i - 1)"
      by (auto simp: in_set_conv_nth)
    then have "labels ! (i + k) = labels ! (i - 1)" using i by simp
    moreover have "labels ! i \<le> labels ! (i + k)"
      using srt k(1) by (auto intro: sorted_nth_mono)
    ultimately show False using lt by simp
  qed
  moreover have "nat (f - 1) = i - 1" "Suc (i - 1) = i" using i f by auto
  ultimately show ?thesis
    using i f by (simp add: is_last_occurrence_def)
qed

lemma is_last_occurrence_bounds:
  "is_last_occurrence labels i \<Longrightarrow> 0 \<le> i \<and> i < int (length labels)"
  by (simp add: is_last_occurrence_def)

lemma walk_step_inv:
  assumes srt: "sorted labels" and inv: "walk_inv labels acc"
    and fo: "is_first_occurrence labels f" and lo: "is_last_occurrence labels l"
  shows "walk_inv labels (walk_step (c, f, l) acc)"
proof -
  have ne: "acc \<noteq> []" and hd0: "hd acc = 0" and strict: "sorted_wrt (<) acc"
    and ok: "\<forall>b\<in>set acc. b = 0 \<or> is_last_occurrence labels (b - 1)"
    using inv by (auto simp: walk_inv_def)
  have "hd acc \<le> last acc"
    using ne strict by (simp add: strict_le_last)
  then have last0: "0 \<le> last acc" using hd0 by simp
  consider (skip) "walk_step (c, f, l) acc = acc"
    | (first) "walk_step (c, f, l) acc = acc @ [f]" "last acc < f"
    | (last) "walk_step (c, f, l) acc = acc @ [l + 1]" "last acc \<le> l"
  proof (cases "c = 0 \<or> l < last acc")
    case True
    then have "walk_step (c, f, l) acc = acc" by auto
    then show ?thesis by (rule skip)
  next
    case noskip: False
    show ?thesis
    proof (cases "\<bar>c - f\<bar> < \<bar>c - l\<bar> \<and> last acc < f")
      case True
      then have "walk_step (c, f, l) acc = acc @ [f]" "last acc < f"
        using noskip by auto
      then show ?thesis by (rule first)
    next
      case False
      then have "walk_step (c, f, l) acc = acc @ [l + 1]" "last acc \<le> l"
        using noskip by auto
      then show ?thesis by (rule last)
    qed
  qed
  then show ?thesis
  proof cases
    case skip
    then show ?thesis using inv by simp
  next
    case first
    have "0 < f" using first(2) last0 by simp
    then have "is_last_occurrence labels (f - 1)"
      using first_occurrence_boundary[OF srt fo] by simp
    then show ?thesis
      unfolding first(1) walk_inv_def
      using ne hd0 ok strict_snoc[OF strict ne first(2)] by auto
  next
    case last
    have "last acc < l + 1" using last(2) by simp
    then show ?thesis
      unfolding last(1) walk_inv_def
      using ne hd0 ok lo strict_snoc[OF strict ne] by auto
  qed
qed

lemma walk_inv_preserved:
  assumes srt: "sorted labels"
  shows "walk_inv labels acc \<Longrightarrow>
     \<forall>t\<in>set ts. is_first_occurrence labels (fst (snd t)) \<and> is_last_occurrence labels (snd (snd t)) \<Longrightarrow>
     walk_inv labels (walk ts acc)"
proof (induction ts arbitrary: acc)
  case Nil
  then show ?case by simp
next
  case (Cons t ts)
  obtain c f l where t: "t = (c, f, l)" by (cases t) auto
  have "walk_inv labels (walk_step t acc)"
    unfolding t using Cons.prems t by (intro walk_step_inv[OF srt]) auto
  then show ?case using Cons by simp
qed

section \<open>The optimiser under its precondition\<close>

lemma partitioningD:
  "partitioning chunks \<Longrightarrow> chunks \<noteq> [] \<and> (\<forall>c\<in>set chunks. 0 < c)"
  by (simp add: partitioning_def list_all_iff)

lemma group_codesD: "group_codes labels \<Longrightarrow> \<forall>x\<in>set labels. 0 \<le> x"
  by (simp add: group_codes_def list_all_iff)

lemma sum_list_partitioning: "partitioning chunks \<Longrightarrow> 0 < sum_list chunks"
proof -
  assume p: "partitioning chunks"
  then obtain c cs where cs: "chunks = c # cs" by (cases chunks) (auto simp: partitioning_def)
  have "0 < c" "\<forall>x\<in>set cs. 0 \<le> x"
    using partitioningD[OF p] cs by (auto intro: less_imp_le)
  then show ?thesis using cs by (simp add: sum_list_nonneg add_pos_nonneg)
qed

lemma chunk_ends_range:
  assumes "partitioning chunks" and "i \<in> set (chunk_ends chunks)"
  shows "0 \<le> i \<and> i < sum_list chunks"
proof -
  from assms(2) obtain y where y: "y \<in> set (cumsum_from 0 chunks)" "i = y - 1"
    by (auto simp: chunk_ends_def cumsum_def)
  have "0 < y \<and> y \<le> 0 + sum_list chunks"
    using partitioningD[OF assms(1)] y(1) by (intro cumsum_from_bounds) auto
  then show ?thesis using y(2) by simp
qed

lemma last_chunk_ends:
  "chunks \<noteq> [] \<Longrightarrow> last (chunk_ends chunks) = sum_list chunks - 1"
proof -
  assume ne: "chunks \<noteq> []"
  then have "cumsum_from 0 chunks \<noteq> []" by (cases chunks) auto
  then show ?thesis
    using ne by (simp add: chunk_ends_def cumsum_def last_map last_cumsum_from)
qed

lemma bound_labels_mem:
  assumes "partitioning chunks" and "int (length labels) = sum_list chunks"
    and "g \<in> set (bound_labels chunks labels)"
  shows "g \<in> set labels"
proof -
  from assms(3) obtain i where i: "i \<in> set (chunk_ends chunks)" "g = labels ! nat i"
    by (auto simp: bound_labels_def set_unique)
  have "0 \<le> i \<and> i < int (length labels)"
    using chunk_ends_range[OF assms(1) i(1)] assms(2) by simp
  then have "nat i < length labels" by linarith
  then show ?thesis unfolding i(2) by (rule nth_mem)
qed

lemma optimal_chunks_unfold:
  assumes part: "partitioning chunks" and codes: "group_codes labels"
    and len: "int (length labels) = sum_list chunks"
  obtains li fi where
    "aggregate labels (arange (length labels)) Last = Inr li"
    "aggregate labels (arange (length labels)) First = Inr fi"
    "get_optimal_chunks_for_groups chunks labels =
       (if chunk_ends chunks = map (\<lambda>g. li ! nat g) (bound_labels chunks labels) then Inr chunks
        else
          let acc = walk (zip (chunk_ends chunks)
                      (zip (map (\<lambda>g. fi ! nat g) (bound_labels chunks labels))
                           (map (\<lambda>g. li ! nat g) (bound_labels chunks labels)))) [0];
              acc' = (if last acc \<noteq> sum_list chunks then acc @ [sum_list chunks] else acc)
          in if sum_list (diff acc') = sum_list chunks then Inr (diff acc')
             else Inl AssertionError)"
proof -
  have nn: "\<forall>x\<in>set labels. 0 \<le> x" using codes by (rule group_codesD)
  have ne: "chunks \<noteq> []" using part by (simp add: partitioning_def)
  have lne: "labels \<noteq> []" using sum_list_partitioning[OF part] len by auto
  obtain li where li: "aggregate labels (arange (length labels)) Last = Inr li"
    using aggregate_Inr[OF lne nn] by blast
  obtain fi where fi: "aggregate labels (arange (length labels)) First = Inr fi"
    using aggregate_Inr[OF lne nn] by blast
  have t1: "np_take labels (chunk_ends chunks) =
      Inr (map (\<lambda>i. labels ! nat i) (chunk_ends chunks))"
    using chunk_ends_range[OF part] len by (intro np_take_in_range) auto
  have cell: "\<forall>g\<in>set (bound_labels chunks labels). 0 \<le> g \<and> g < int (nat (max_list labels + 1))"
  proof
    fix g assume "g \<in> set (bound_labels chunks labels)"
    then have g: "g \<in> set labels" by (rule bound_labels_mem[OF part len])
    then show "0 \<le> g \<and> g < int (nat (max_list labels + 1))"
      using nn le_max_list[OF g] by auto
  qed
  have t2: "np_take li (bound_labels chunks labels) =
      Inr (map (\<lambda>g. li ! nat g) (bound_labels chunks labels))"
    using cell length_aggregate[OF lne nn li] by (intro np_take_in_range) simp
  have t3: "np_take fi (bound_labels chunks labels) =
      Inr (map (\<lambda>g. fi ! nat g) (bound_labels chunks labels))"
    using cell length_aggregate[OF lne nn fi] by (intro np_take_in_range) simp
  have lc: "last (chunk_ends chunks) + 1 = sum_list chunks"
    using last_chunk_ends[OF ne] by simp
  have "get_optimal_chunks_for_groups chunks labels =
       (if chunk_ends chunks = map (\<lambda>g. li ! nat g) (bound_labels chunks labels) then Inr chunks
        else
          let acc = walk (zip (chunk_ends chunks)
                      (zip (map (\<lambda>g. fi ! nat g) (bound_labels chunks labels))
                           (map (\<lambda>g. li ! nat g) (bound_labels chunks labels)))) [0];
              acc' = (if last acc \<noteq> sum_list chunks then acc @ [sum_list chunks] else acc)
          in if sum_list (diff acc') = sum_list chunks then Inr (diff acc')
             else Inl AssertionError)"
    unfolding get_optimal_chunks_for_groups_def
    using ne
    by (simp add: chunk_ends_def[symmetric] t1 bound_labels_def[symmetric] li fi t2 t3 lc Let_def
        cong: if_cong)
  then show ?thesis using li fi that by blast
qed

lemma snd_zip_mem: "p \<in> set (zip xs ys) \<Longrightarrow> snd p \<in> set ys"
proof -
  assume a: "p \<in> set (zip xs ys)"
  obtain x y where p: "p = (x, y)" by (cases p) auto
  show ?thesis using a unfolding p by (auto dest: set_zip_rightD)
qed

lemma cumsum_chunk_ends: "b \<in> set (cumsum chunks) \<Longrightarrow> b - 1 \<in> set (chunk_ends chunks)"
  by (auto simp: chunk_ends_def)

lemma walk_result_aligned:
  assumes srt: "sorted labels" and n: "int (length labels) = n" and pos: "0 < n"
    and inv: "walk_inv labels acc"
  defines "acc' \<equiv> (if last acc \<noteq> n then acc @ [n] else acc)"
  shows "sum_list (diff acc') = n \<and> diff acc' \<noteq> [] \<and> (\<forall>d\<in>set (diff acc'). 0 < d) \<and>
         (\<forall>b\<in>set (cumsum (diff acc')). is_last_occurrence labels (b - 1))"
proof -
  have ne: "acc \<noteq> []" and hd0: "hd acc = 0" and strict: "sorted_wrt (<) acc"
    and ok: "\<forall>b\<in>set acc. b = 0 \<or> is_last_occurrence labels (b - 1)"
    using inv by (auto simp: walk_inv_def)
  have endok: "is_last_occurrence labels (n - 1)"
    using n pos by (auto simp: is_last_occurrence_def)
  have "last acc \<in> set acc" using ne by simp
  then have "last acc = 0 \<or> is_last_occurrence labels (last acc - 1)" using ok by blast
  then have le: "last acc \<le> n"
    using pos n by (auto dest: is_last_occurrence_bounds)
  have inv': "walk_inv labels acc'"
  proof (cases "last acc = n")
    case True
    then show ?thesis using inv by (simp add: acc'_def)
  next
    case False
    then have "last acc < n" using le by simp
    then have "sorted_wrt (<) (acc @ [n])" by (rule strict_snoc[OF strict ne])
    then show ?thesis
      using False ne hd0 ok endok by (auto simp: acc'_def walk_inv_def)
  qed
  have last': "last acc' = n" using ne by (simp add: acc'_def)
  have ne': "acc' \<noteq> []" and hd': "hd acc' = 0" and strict': "sorted_wrt (<) acc'"
    and ok': "\<forall>b\<in>set acc'. b = 0 \<or> is_last_occurrence labels (b - 1)"
    using inv' by (auto simp: walk_inv_def)
  obtain rest where rest: "acc' = 0 # rest" using ne' hd' by (cases acc') auto
  have rne: "rest \<noteq> []" using last' pos rest by auto
  have s: "sum_list (diff acc') = n"
    unfolding rest sum_list_diff using last' rest by simp
  have dne: "diff acc' \<noteq> []" using rne rest by (simp add: diff_eq_Nil)
  have dpos: "\<forall>d\<in>set (diff acc'). 0 < d" using diff_positive[OF strict'] by blast
  have cs: "cumsum (diff acc') = rest"
    unfolding rest cumsum_def by (rule cumsum_from_diff)
  have "\<forall>b\<in>set rest. is_last_occurrence labels (b - 1)"
  proof
    fix b assume b: "b \<in> set rest"
    then have "0 < b" using strict' rest by auto
    moreover have "b \<in> set acc'" using b rest by simp
    ultimately show "is_last_occurrence labels (b - 1)" using ok' by auto
  qed
  then show ?thesis using s dne dpos cs by simp
qed

lemma optimal_chunks_aligned:
  assumes part: "partitioning chunks" and srt: "sorted labels" and codes: "group_codes labels"
    and len: "int (length labels) = sum_list chunks"
  shows "\<exists>out. get_optimal_chunks_for_groups chunks labels = Inr out \<and> partitioning out \<and>
           sum_list out = sum_list chunks \<and>
           (\<forall>b\<in>set (cumsum out). is_last_occurrence labels (b - 1))"
proof -
  have nn: "\<forall>x\<in>set labels. 0 \<le> x" using codes by (rule group_codesD)
  from optimal_chunks_unfold[OF part codes len] obtain li fi where
    li: "aggregate labels (arange (length labels)) Last = Inr li" and
    fi: "aggregate labels (arange (length labels)) First = Inr fi" and
    eq: "get_optimal_chunks_for_groups chunks labels =
       (if chunk_ends chunks = map (\<lambda>g. li ! nat g) (bound_labels chunks labels) then Inr chunks
        else
          let acc = walk (zip (chunk_ends chunks)
                      (zip (map (\<lambda>g. fi ! nat g) (bound_labels chunks labels))
                           (map (\<lambda>g. li ! nat g) (bound_labels chunks labels)))) [0];
              acc' = (if last acc \<noteq> sum_list chunks then acc @ [sum_list chunks] else acc)
          in if sum_list (diff acc') = sum_list chunks then Inr (diff acc')
             else Inl AssertionError)"
    by blast
  let ?U = "bound_labels chunks labels"
  let ?lastidx = "map (\<lambda>g. li ! nat g) ?U"
  let ?firstidx = "map (\<lambda>g. fi ! nat g) ?U"
  have lastok: "\<forall>l\<in>set ?lastidx. is_last_occurrence labels l"
    using last_indexes_spec[OF nn _ li] bound_labels_mem[OF part len] by auto
  have firstok: "\<forall>f\<in>set ?firstidx. is_first_occurrence labels f"
    using first_indexes_spec[OF nn _ fi] bound_labels_mem[OF part len] by auto
  show ?thesis
  proof (cases "chunk_ends chunks = ?lastidx")
    case True
    have "\<forall>b\<in>set (cumsum chunks). is_last_occurrence labels (b - 1)"
    proof
      fix b assume "b \<in> set (cumsum chunks)"
      then have "b - 1 \<in> set (chunk_ends chunks)" by (rule cumsum_chunk_ends)
      then have "b - 1 \<in> set ?lastidx" by (simp only: True)
      then show "is_last_occurrence labels (b - 1)" using lastok by blast
    qed
    then show ?thesis using eq True part by simp
  next
    case False
    define acc where "acc = walk (zip (chunk_ends chunks) (zip ?firstidx ?lastidx)) [0]"
    define acc' where "acc' = (if last acc \<noteq> sum_list chunks then acc @ [sum_list chunks] else acc)"
    have triples: "\<forall>t\<in>set (zip (chunk_ends chunks) (zip ?firstidx ?lastidx)).
        is_first_occurrence labels (fst (snd t)) \<and> is_last_occurrence labels (snd (snd t))"
    proof
      fix t assume "t \<in> set (zip (chunk_ends chunks) (zip ?firstidx ?lastidx))"
      then have "snd t \<in> set (zip ?firstidx ?lastidx)"
        by (rule snd_zip_mem)
      then have "fst (snd t) \<in> set ?firstidx" "snd (snd t) \<in> set ?lastidx"
        by (rule fst_zip_mem, rule snd_zip_mem)
      then show "is_first_occurrence labels (fst (snd t)) \<and> is_last_occurrence labels (snd (snd t))"
        using firstok lastok by blast
    qed
    have "walk_inv labels [0]" by (simp add: walk_inv_def)
    then have inv: "walk_inv labels acc"
      unfolding acc_def using triples by (rule walk_inv_preserved[OF srt])
    have res: "sum_list (diff acc') = sum_list chunks \<and> diff acc' \<noteq> [] \<and>
        (\<forall>d\<in>set (diff acc'). 0 < d) \<and>
        (\<forall>b\<in>set (cumsum (diff acc')). is_last_occurrence labels (b - 1))"
      unfolding acc'_def
      using walk_result_aligned[OF srt len sum_list_partitioning[OF part] inv] .
    have "get_optimal_chunks_for_groups chunks labels = Inr (diff acc')"
      using eq False res by (simp add: acc_def[symmetric] acc'_def[symmetric] Let_def)
    then show ?thesis using res by (simp add: partitioning_def list_all_iff)
  qed
qed

lemma aligned_labels_strict:
  assumes srt: "sorted labels" and strict: "sorted_wrt (<) cs"
    and ok: "\<forall>c\<in>set cs. is_last_occurrence labels c"
  shows "sorted_wrt (<) (map (\<lambda>i. labels ! nat i) cs)"
proof -
  have "\<And>x y. x \<in> set cs \<Longrightarrow> y \<in> set cs \<Longrightarrow> x < y \<Longrightarrow> labels ! nat x < labels ! nat y"
  proof -
    fix x y assume x: "x \<in> set cs" and y: "y \<in> set cs" and lt: "x < y"
    have bx: "0 \<le> x" "labels ! nat x \<notin> set (drop (Suc (nat x)) labels)"
      and by': "y < int (length labels)"
      using ok x y by (auto simp: is_last_occurrence_def)
    define i j where "i = nat x" and "j = nat y"
    have ny: "i < j" "j < length labels" using bx(1) lt by' by (auto simp: i_def j_def)
    then have le: "labels ! i \<le> labels ! j"
      using srt by (auto intro: sorted_nth_mono)
    have "Suc i + (j - Suc i) = j" using ny by arith
    then have "drop (Suc i) labels ! (j - Suc i) = labels ! j"
      using ny by (simp del: add_Suc)
    moreover have "j - Suc i < length (drop (Suc i) labels)"
      using ny by simp
    ultimately have "labels ! j \<in> set (drop (Suc i) labels)"
      by (metis nth_mem)
    then have "labels ! nat y \<in> set (drop (Suc (nat x)) labels)"
      and le: "labels ! nat x \<le> labels ! nat y"
      using le by (simp_all add: i_def j_def)
    then have "labels ! nat x \<noteq> labels ! nat y" using bx(2) by auto
    then show "labels ! nat x < labels ! nat y" using le by simp
  qed
  then have "sorted_wrt (\<lambda>x y. labels ! nat x < labels ! nat y) cs"
    using strict by (auto intro: sorted_wrt_mono_rel[where P = "(<)"])
  then show ?thesis by (simp add: sorted_wrt_map)
qed

lemma aligned_fast_path:
  assumes part: "partitioning chunks" and srt: "sorted labels" and codes: "group_codes labels"
    and len: "int (length labels) = sum_list chunks"
    and aligned: "\<forall>b\<in>set (cumsum chunks). is_last_occurrence labels (b - 1)"
  shows "get_optimal_chunks_for_groups chunks labels = Inr chunks"
proof -
  have nn: "\<forall>x\<in>set labels. 0 \<le> x" using codes by (rule group_codesD)
  from optimal_chunks_unfold[OF part codes len] obtain li fi where
    li: "aggregate labels (arange (length labels)) Last = Inr li" and
    eq: "get_optimal_chunks_for_groups chunks labels =
       (if chunk_ends chunks = map (\<lambda>g. li ! nat g) (bound_labels chunks labels) then Inr chunks
        else
          let acc = walk (zip (chunk_ends chunks)
                      (zip (map (\<lambda>g. fi ! nat g) (bound_labels chunks labels))
                           (map (\<lambda>g. li ! nat g) (bound_labels chunks labels)))) [0];
              acc' = (if last acc \<noteq> sum_list chunks then acc @ [sum_list chunks] else acc)
          in if sum_list (diff acc') = sum_list chunks then Inr (diff acc')
             else Inl AssertionError)"
    by blast
  have ok: "\<forall>c\<in>set (chunk_ends chunks). is_last_occurrence labels c"
    using aligned by (auto simp: chunk_ends_def)
  have "sorted_wrt (<) (cumsum chunks)"
    unfolding cumsum_def using partitioningD[OF part] by (intro cumsum_from_strict) simp
  then have strict: "sorted_wrt (<) (chunk_ends chunks)"
    by (simp add: chunk_ends_def sorted_wrt_map)
  have "bound_labels chunks labels = map (\<lambda>i. labels ! nat i) (chunk_ends chunks)"
    unfolding bound_labels_def
    using aligned_labels_strict[OF srt strict ok] by (rule unique_strict_id)
  then have "map (\<lambda>g. li ! nat g) (bound_labels chunks labels) =
      map (\<lambda>c. li ! nat (labels ! nat c)) (chunk_ends chunks)"
    by (simp add: comp_def)
  also have "\<dots> = map (\<lambda>c. c) (chunk_ends chunks)"
    using last_indexes_at_last_occurrence[OF nn _ li] ok by (intro map_cong) auto
  finally have "chunk_ends chunks = map (\<lambda>g. li ! nat g) (bound_labels chunks labels)"
    by simp
  then show ?thesis using eq by simp
qed

section \<open>The claims about \<open>_get_optimal_chunks_for_groups\<close>\<close>

lemma walk_append: "walk (xs @ ys) acc = walk ys (walk xs acc)"
  by (induction xs arbitrary: acc) auto

lemma last_occurrence_splits_groups:
  assumes lo: "is_last_occurrence labels (b - 1)"
  shows "b = int (length labels) \<or>
         (0 < b \<and> b < int (length labels) \<and> labels ! nat (b - 1) \<noteq> labels ! nat b)"
proof (cases "b = int (length labels)")
  case True
  then show ?thesis by simp
next
  case False
  have b: "1 \<le> b" "b - 1 < int (length labels)"
    and notin: "labels ! nat (b - 1) \<notin> set (drop (Suc (nat (b - 1))) labels)"
    using lo by (auto simp: is_last_occurrence_def)
  have lt: "b < int (length labels)" using b False by simp
  have suc: "Suc (nat (b - 1)) = nat b" using b by simp
  have "nat b < length labels" using lt b by linarith
  then have "labels ! nat b \<in> set (drop (nat b) labels)"
    by (metis Cons_nth_drop_Suc list.set_intros(1))
  then have "labels ! nat (b - 1) \<noteq> labels ! nat b"
    using notin unfolding suc by auto
  then show ?thesis using b lt by simp
qed

text \<open>
  The assertion at the end of the function cannot fail, whatever the arguments: the walk
  starts from \<open>0\<close>, and the last boundary is forced to \<open>chunkidx[-1] + 1\<close>.
\<close>

lemma walk_keeps_prefix: "\<exists>ys. walk ts acc = acc @ ys"
proof (induction ts arbitrary: acc)
  case Nil
  then show ?case by simp
next
  case (Cons t ts)
  obtain c f l where t: "t = (c, f, l)" by (cases t) auto
  have "\<exists>xs. walk_step t acc = acc @ xs" unfolding t by (simp add: Let_def)
  then obtain xs where xs: "walk_step t acc = acc @ xs" by blast
  from Cons.IH[of "acc @ xs"] obtain ys where "walk ts (acc @ xs) = (acc @ xs) @ ys" by blast
  then show ?case using xs by simp
qed

lemma slow_path_sum:
  assumes "chunks \<noteq> []"
  shows "sum_list (diff (if last (walk ts [0]) \<noteq> last (chunk_ends chunks) + 1
                         then walk ts [0] @ [last (chunk_ends chunks) + 1]
                         else walk ts [0])) = sum_list chunks"
proof -
  obtain ys where ys: "walk ts [0] = 0 # ys" using walk_keeps_prefix[of ts "[0]"] by auto
  define acc' where "acc' = (if last (walk ts [0]) \<noteq> last (chunk_ends chunks) + 1
                         then walk ts [0] @ [last (chunk_ends chunks) + 1]
                         else walk ts [0])"
  have l: "last acc' = last (chunk_ends chunks) + 1" by (simp add: acc'_def ys)
  have "acc' = 0 # (if last (walk ts [0]) \<noteq> last (chunk_ends chunks) + 1
                     then ys @ [last (chunk_ends chunks) + 1] else ys)"
    by (simp add: acc'_def ys)
  then obtain zs where zs: "acc' = 0 # zs" by blast
  have "sum_list (diff acc') = last acc' - 0" unfolding zs by (rule sum_list_diff)
  then show ?thesis
    using l last_chunk_ends[OF assms] by (simp add: acc'_def)
qed

lemma np_take_error: "np_take xs is = Inl e \<Longrightarrow> e = IndexError"
  by (induction "is" arbitrary: e) (auto simp: np_getitem_def split: if_splits sum.splits)

lemma aggregate_error: "aggregate g a f = Inl e \<Longrightarrow> \<exists>msg. e = ValueError msg"
  by (auto simp: aggregate_def Let_def split: if_splits)

lemma assertion_unreachable:
  "get_optimal_chunks_for_groups chunks labels \<noteq> Inl AssertionError"
proof (cases "chunks = []")
  case True
  then show ?thesis by (simp add: get_optimal_chunks_for_groups_def)
next
  case False
  show ?thesis
    unfolding get_optimal_chunks_for_groups_def
    using False slow_path_sum[OF False, unfolded chunk_ends_def]
    by (auto simp: Let_def split: sum.splits if_splits
        dest: np_take_error aggregate_error)
qed

text \<open>
  Claim C1, as the code has it. For every partitioning \<open>chunks\<close> and every
  non-decreasing array \<open>labels\<close> of non-negative integers whose length is the sum of the
  chunks, the function returns a partitioning whose entries sum to \<open>sum(chunks)\<close>; and
  for all arguments the assertion at its end holds, so the \<open>AssertionError\<close> is never
  raised.
\<close>

theorem optimal_chunks_sum_preserved:
  "(partitioning chunks \<longrightarrow> sorted labels \<longrightarrow> group_codes labels \<longrightarrow>
    int (length labels) = sum_list chunks \<longrightarrow>
    (\<exists>out. get_optimal_chunks_for_groups chunks labels = Inr out \<and>
       partitioning out \<and> sum_list out = sum_list chunks)) \<and>
   get_optimal_chunks_for_groups chunks labels \<noteq> Inl AssertionError"
  using optimal_chunks_aligned[of chunks labels] assertion_unreachable[of chunks labels]
  by blast

theorem optimal_chunks_sum_preserved_witness:
  "partitioning [4, 3, 2] \<and> sorted [0, 0, 0, 1, 1, 1, 1, 2, 2 :: int] \<and>
   group_codes [0, 0, 0, 1, 1, 1, 1, 2, 2] \<and>
   int (length [0, 0, 0, 1, 1, 1, 1, 2, 2 :: int]) = sum_list [4, 3, 2] \<and>
   (\<exists>out. get_optimal_chunks_for_groups [4, 3, 2] [0, 0, 0, 1, 1, 1, 1, 2, 2] = Inr out \<and>
      partitioning out \<and> sum_list out = sum_list [4, 3, 2]) \<and>
   get_optimal_chunks_for_groups [4, 3, 2] [0, 0, 0, 1, 1, 1, 1, 2, 2] \<noteq> Inl AssertionError"
proof -
  have h1: "partitioning [4, 3, 2]" by (simp add: partitioning_def)
  have h2: "sorted [0, 0, 0, 1, 1, 1, 1, 2, 2 :: int]" by simp
  have h3: "group_codes [0, 0, 0, 1, 1, 1, 1, 2, 2]" by (simp add: group_codes_def)
  have h4: "int (length [0, 0, 0, 1, 1, 1, 1, 2, 2 :: int]) = sum_list [4, 3, 2]" by simp
  show ?thesis
    using h1 h2 h3 h4
      optimal_chunks_sum_preserved[of "[4, 3, 2]" "[0, 0, 0, 1, 1, 1, 1, 2, 2]"]
    by blast
qed

text \<open>
  The claim as written admits every non-decreasing integer array. With a negative label
  \<open>numpy_groupies.aggregate\<close> raises \<open>ValueError\<close> at line 149, and nothing is
  returned.
\<close>

theorem negative_label_raises:
  "partitioning [2, 3] \<and> sorted [- 1, - 1, 0, 0, 1 :: int] \<and>
   int (length [- 1, - 1, 0, 0, 1 :: int]) = sum_list [2, 3] \<and>
   get_optimal_chunks_for_groups [2, 3] [- 1, - 1, 0, 0, 1] =
     Inl (ValueError ''negative indices not supported'')"
  by (simp add: partitioning_def get_optimal_chunks_for_groups_def cumsum_def np_getitem_def
      aggregate_def)

text \<open>
  Claim C2. Under the same precondition no boundary of the returned partitioning falls
  inside a run of equal labels: the last boundary is the end of the sequence, and at every
  boundary \<open>b\<close> before it the labels at \<open>b - 1\<close> and \<open>b\<close> differ.
\<close>
theorem optimal_chunks_never_split_group:
  assumes "partitioning chunks" and "sorted labels" and "group_codes labels"
    and "int (length labels) = sum_list chunks"
  shows "\<exists>out. get_optimal_chunks_for_groups chunks labels = Inr out \<and>
           last (cumsum out) = int (length labels) \<and>
           (\<forall>b\<in>set (cumsum out).
              b = int (length labels) \<or>
              (0 < b \<and> b < int (length labels) \<and> labels ! nat (b - 1) \<noteq> labels ! nat b))"
proof -
  from optimal_chunks_aligned[OF assms] obtain out where
    out: "get_optimal_chunks_for_groups chunks labels = Inr out" "partitioning out"
      "sum_list out = sum_list chunks"
      "\<forall>b\<in>set (cumsum out). is_last_occurrence labels (b - 1)"
    by blast
  have "out \<noteq> []" using out(2) by (simp add: partitioning_def)
  then have "last (cumsum out) = int (length labels)"
    using out(3) assms(4) by (simp add: cumsum_def last_cumsum_from)
  then show ?thesis
    using out(1,4) last_occurrence_splits_groups by blast
qed

theorem optimal_chunks_never_split_group_witness:
  "partitioning [5, 4] \<and> sorted [0, 0, 0, 1, 1, 1, 1, 2, 2 :: int] \<and>
   group_codes [0, 0, 0, 1, 1, 1, 1, 2, 2] \<and>
   int (length [0, 0, 0, 1, 1, 1, 1, 2, 2 :: int]) = sum_list [5, 4] \<and>
   (\<exists>out. get_optimal_chunks_for_groups [5, 4] [0, 0, 0, 1, 1, 1, 1, 2, 2] = Inr out \<and>
      last (cumsum out) = int (length [0, 0, 0, 1, 1, 1, 1, 2, 2 :: int]) \<and>
      (\<forall>b\<in>set (cumsum out).
         b = int (length [0, 0, 0, 1, 1, 1, 1, 2, 2 :: int]) \<or>
         (0 < b \<and> b < int (length [0, 0, 0, 1, 1, 1, 1, 2, 2 :: int]) \<and>
          [0, 0, 0, 1, 1, 1, 1, 2, 2 :: int] ! nat (b - 1) \<noteq> [0, 0, 0, 1, 1, 1, 1, 2, 2] ! nat b)))"
proof -
  have h1: "partitioning [5, 4]" by (simp add: partitioning_def)
  have h2: "sorted [0, 0, 0, 1, 1, 1, 1, 2, 2 :: int]" by simp
  have h3: "group_codes [0, 0, 0, 1, 1, 1, 1, 2, 2]" by (simp add: group_codes_def)
  have h4: "int (length [0, 0, 0, 1, 1, 1, 1, 2, 2 :: int]) = sum_list [5, 4]" by simp
  show ?thesis
    using h1 h2 h3 h4 optimal_chunks_never_split_group[OF h1 h2 h3 h4] by blast
qed

text \<open>
  Claim C3, as the code has it. If the last index of every chunk is the last occurrence
  of its label, and the labels are non-negative (and meet the function's contract:
  non-decreasing, of matching length), the function returns \<open>chunks\<close> itself; and
  \<open>chunks = (3,4,2)\<close> with \<open>labels = [0,0,0,1,1,1,1,2,2]\<close> gives \<open>(3,4,2)\<close>.
\<close>
theorem aligned_chunks_returned_unchanged:
  "(partitioning chunks \<longrightarrow> sorted labels \<longrightarrow> group_codes labels \<longrightarrow>
    int (length labels) = sum_list chunks \<longrightarrow>
    list_all (is_last_occurrence labels) (chunk_ends chunks) \<longrightarrow>
    get_optimal_chunks_for_groups chunks labels = Inr chunks) \<and>
   get_optimal_chunks_for_groups [3, 4, 2] [0, 0, 0, 1, 1, 1, 1, 2, 2] = Inr [3, 4, 2]"
proof
  show "partitioning chunks \<longrightarrow> sorted labels \<longrightarrow> group_codes labels \<longrightarrow>
    int (length labels) = sum_list chunks \<longrightarrow>
    list_all (is_last_occurrence labels) (chunk_ends chunks) \<longrightarrow>
    get_optimal_chunks_for_groups chunks labels = Inr chunks"
  proof (intro impI)
    assume h: "partitioning chunks" "sorted labels" "group_codes labels"
      "int (length labels) = sum_list chunks"
      and al: "list_all (is_last_occurrence labels) (chunk_ends chunks)"
    have "\<forall>b\<in>set (cumsum chunks). is_last_occurrence labels (b - 1)"
      using al by (simp add: list_all_iff chunk_ends_def)
    then show "get_optimal_chunks_for_groups chunks labels = Inr chunks"
      by (rule aligned_fast_path[OF h])
  qed
  show "get_optimal_chunks_for_groups [3, 4, 2] [0, 0, 0, 1, 1, 1, 1, 2, 2] = Inr [3, 4, 2]"
    by code_simp
qed

theorem aligned_chunks_returned_unchanged_witness:
  "partitioning [3, 6] \<and> sorted [0, 0, 0, 1, 1, 1, 1, 2, 2 :: int] \<and>
   group_codes [0, 0, 0, 1, 1, 1, 1, 2, 2] \<and>
   int (length [0, 0, 0, 1, 1, 1, 1, 2, 2 :: int]) = sum_list [3, 6] \<and>
   list_all (is_last_occurrence [0, 0, 0, 1, 1, 1, 1, 2, 2]) (chunk_ends [3, 6]) \<and>
   get_optimal_chunks_for_groups [3, 6] [0, 0, 0, 1, 1, 1, 1, 2, 2] = Inr [3, 6]"
proof -
  have h1: "partitioning [3, 6]" by (simp add: partitioning_def)
  have h2: "sorted [0, 0, 0, 1, 1, 1, 1, 2, 2 :: int]" by simp
  have h3: "group_codes [0, 0, 0, 1, 1, 1, 1, 2, 2]" by (simp add: group_codes_def)
  have h4: "int (length [0, 0, 0, 1, 1, 1, 1, 2, 2 :: int]) = sum_list [3, 6]" by simp
  have h5: "list_all (is_last_occurrence [0, 0, 0, 1, 1, 1, 1, 2, 2]) (chunk_ends [3, 6])"
    by (simp add: is_last_occurrence_def chunk_ends_def cumsum_def)
  show ?thesis
    using h1 h2 h3 h4 h5
      aligned_chunks_returned_unchanged[of "[3, 6]" "[0, 0, 0, 1, 1, 1, 1, 2, 2]"]
    by blast
qed

text \<open>
  The claim as written does not ask for non-negative labels. With the labels
  \<open>[-1,-1,0,0]\<close> and the chunks \<open>(2,2)\<close> every chunk ends on the last occurrence of
  its label, yet \<open>numpy_groupies.aggregate\<close> raises \<open>ValueError\<close> and the chunks are
  not returned.
\<close>

theorem aligned_negative_label_raises:
  "partitioning [2, 2] \<and> sorted [- 1, - 1, 0, 0 :: int] \<and>
   int (length [- 1, - 1, 0, 0 :: int]) = sum_list [2, 2] \<and>
   list_all (is_last_occurrence [- 1, - 1, 0, 0]) (chunk_ends [2, 2]) \<and>
   get_optimal_chunks_for_groups [2, 2] [- 1, - 1, 0, 0] =
     Inl (ValueError ''negative indices not supported'')"
  by (simp add: partitioning_def get_optimal_chunks_for_groups_def cumsum_def np_getitem_def
      aggregate_def is_last_occurrence_def chunk_ends_def)

text \<open>
  Claim C5. The function is idempotent: under its precondition it returns a partitioning,
  and applied to that partitioning with the same labels it returns it again.
\<close>
theorem optimal_chunks_idempotent:
  assumes "partitioning chunks" and "sorted labels" and "group_codes labels"
    and "int (length labels) = sum_list chunks"
  shows "\<exists>out. get_optimal_chunks_for_groups chunks labels = Inr out \<and>
           get_optimal_chunks_for_groups out labels = Inr out"
proof -
  from optimal_chunks_aligned[OF assms] obtain out where
    out: "get_optimal_chunks_for_groups chunks labels = Inr out" "partitioning out"
      "sum_list out = sum_list chunks"
      "\<forall>b\<in>set (cumsum out). is_last_occurrence labels (b - 1)"
    by blast
  have "int (length labels) = sum_list out" using out(3) assms(4) by simp
  then have "get_optimal_chunks_for_groups out labels = Inr out"
    using out(4) by (intro aligned_fast_path[OF out(2) assms(2,3)])
  then show ?thesis using out(1) by blast
qed

theorem optimal_chunks_idempotent_witness:
  "partitioning [2, 2, 5] \<and> sorted [0, 0, 0, 0, 0, 1, 1, 1, 1 :: int] \<and>
   group_codes [0, 0, 0, 0, 0, 1, 1, 1, 1] \<and>
   int (length [0, 0, 0, 0, 0, 1, 1, 1, 1 :: int]) = sum_list [2, 2, 5] \<and>
   (\<exists>out. get_optimal_chunks_for_groups [2, 2, 5] [0, 0, 0, 0, 0, 1, 1, 1, 1] = Inr out \<and>
      get_optimal_chunks_for_groups out [0, 0, 0, 0, 0, 1, 1, 1, 1] = Inr out)"
proof -
  have h1: "partitioning [2, 2, 5]" by (simp add: partitioning_def)
  have h2: "sorted [0, 0, 0, 0, 0, 1, 1, 1, 1 :: int]" by simp
  have h3: "group_codes [0, 0, 0, 0, 0, 1, 1, 1, 1]" by (simp add: group_codes_def)
  have h4: "int (length [0, 0, 0, 0, 0, 1, 1, 1, 1 :: int]) = sum_list [2, 2, 5]" by simp
  show ?thesis
    using h1 h2 h3 h4 optimal_chunks_idempotent[OF h1 h2 h3 h4] by blast
qed

text \<open>
  Claim C8. When the loop reaches a boundary \<open>c\<close> that it does not skip, and \<open>c\<close>
  is as far from the first index \<open>f\<close> of the group as from its last index \<open>l\<close>,
  the boundary appended is \<open>l + 1\<close>, which is not \<open>f\<close>. \<open>before\<close> and
  \<open>after\<close> are the iterations around the one in question.
\<close>
theorem tie_emits_last_plus_one:
  assumes tie: "\<bar>c - f\<bar> = \<bar>c - l\<bar>" and group: "f \<le> l"
    and processed: "\<not> (c = 0 \<or> last (walk before [0]) > l)"
  shows "walk (before @ (c, f, l) # after) [0] = walk after (walk before [0] @ [l + 1]) \<and>
         l + 1 \<noteq> f"
proof -
  have "walk_step (c, f, l) (walk before [0]) = walk before [0] @ [l + 1]"
    using tie processed by simp
  then show ?thesis using group by (simp add: walk_append)
qed

theorem tie_emits_last_plus_one_witness:
  "\<bar>2 - 1\<bar> = \<bar>2 - (3::int)\<bar> \<and> (1::int) \<le> 3 \<and> \<not> ((2::int) = 0 \<or> last (walk [] [0]) > 3) \<and>
   walk ([] @ (2, 1, 3) # [(4, 4, 4)]) [0] = walk [(4, 4, 4)] (walk [] [0] @ [3 + 1]) \<and>
   walk [(2, 1, 3), (4, 4, 4)] [0] = [0, 4, 5] \<and>
   get_optimal_chunks_for_groups [3, 2] [0, 1, 1, 1, 2] = Inr [4, 1]"
proof -
  have h1: "\<bar>2 - 1\<bar> = \<bar>2 - (3::int)\<bar>" by simp
  have h2: "(1::int) \<le> 3" by simp
  have h3: "\<not> ((2::int) = 0 \<or> last (walk [] [0]) > 3)" by simp
  have e1: "walk [(2, 1, 3), (4, 4, 4)] [0] = [0, 4, 5]" by simp
  have e2: "get_optimal_chunks_for_groups [3, 2] [0, 1, 1, 1, 2] = Inr [4, 1]" by code_simp
  show ?thesis
    using h1 h2 h3 e1 e2 tie_emits_last_plus_one[OF h1 h2 h3, of "[(4, 4, 4)]"] by blast
qed

section \<open>The claims about \<open>xarray_reduce\<close>\<close>

text \<open>
  Claim C6, as the code has it. \<open>xarray_reduce\<close> raises its \<open>ValueError\<close> exactly
  when there is more than one grouping key and at least one of the keys is a dask
  collection, that is, its data or one of its coordinates is a dask array; with a single
  key, or with no such key, it does not raise a \<open>ValueError\<close> while determining the
  groups.
\<close>
theorem multi_key_lazy_error_iff:
  "(\<exists>msg. xarray_reduce_groups factorize by expected_groups = Inl (ValueError msg)) \<longleftrightarrow>
     1 < length by \<and> 0 < lazy_keys by"
proof -
  have lazy: "0 < lazy_keys by \<longleftrightarrow> list_ex is_dask_collection by"
    by (auto simp: lazy_keys_def list_ex_iff filter_empty_conv)
  show ?thesis
    unfolding lazy xarray_reduce_groups_def
    by (auto simp: Let_def split: prod.splits option.splits list.splits)
qed

theorem multi_key_lazy_error_iff_witness:
  "(\<exists>msg. xarray_reduce_groups factorize_spec
      [\<lparr>da_name = ''a'', da_dims = [''x''], da_shape = [2], da_data = NumpyArray [0, 1],
         da_coords = []\<rparr>,
       \<lparr>da_name = ''b'', da_dims = [''x''], da_shape = [2], da_data = NumpyArray [5, 5],
         da_coords = [(''lat'', DaskArray [7, 8] [[1, 1]])]\<rparr>]
      None = Inl (ValueError msg)) \<and>
   1 < length
      [\<lparr>da_name = ''a'', da_dims = [''x''], da_shape = [2], da_data = NumpyArray [0, 1],
         da_coords = []\<rparr>,
       \<lparr>da_name = ''b'', da_dims = [''x''], da_shape = [2], da_data = NumpyArray [5, 5],
         da_coords = [(''lat'', DaskArray [7, 8] [[1, 1]])]\<rparr>] \<and>
   0 < lazy_keys
      [\<lparr>da_name = ''a'', da_dims = [''x''], da_shape = [2], da_data = NumpyArray [0, 1],
         da_coords = []\<rparr>,
       \<lparr>da_name = ''b'', da_dims = [''x''], da_shape = [2], da_data = NumpyArray [5, 5],
         da_coords = [(''lat'', DaskArray [7, 8] [[1, 1]])]\<rparr>]"
proof -
  have rhs: "1 < length
      [\<lparr>da_name = ''a'', da_dims = [''x''], da_shape = [2], da_data = NumpyArray [0, 1],
         da_coords = []\<rparr>,
       \<lparr>da_name = ''b'', da_dims = [''x''], da_shape = [2], da_data = NumpyArray [5, 5],
         da_coords = [(''lat'', DaskArray [7, 8] [[1, 1]])]\<rparr>] \<and>
   0 < lazy_keys
      [\<lparr>da_name = ''a'', da_dims = [''x''], da_shape = [2], da_data = NumpyArray [0, 1],
         da_coords = []\<rparr>,
       \<lparr>da_name = ''b'', da_dims = [''x''], da_shape = [2], da_data = NumpyArray [5, 5],
         da_coords = [(''lat'', DaskArray [7, 8] [[1, 1]])]\<rparr>]"
    by (simp add: lazy_keys_def is_dask_collection_def)
  show ?thesis
    using rhs multi_key_lazy_error_iff[of factorize_spec
      "[\<lparr>da_name = ''a'', da_dims = [''x''], da_shape = [2], da_data = NumpyArray [0, 1],
         da_coords = []\<rparr>,
       \<lparr>da_name = ''b'', da_dims = [''x''], da_shape = [2], da_data = NumpyArray [5, 5],
         da_coords = [(''lat'', DaskArray [7, 8] [[1, 1]])]\<rparr>]" None]
    by blast
qed

text \<open>
  The claim as written lets two keys pass when only one of them is lazy. The check is
  \<open>any\<close>, so one lazy key among two is enough for the error.
\<close>

theorem one_lazy_key_of_two_raises:
  "lazy_keys
      [\<lparr>da_name = ''a'', da_dims = [''x''], da_shape = [2], da_data = NumpyArray [0, 1], da_coords = []\<rparr>,
       \<lparr>da_name = ''b'', da_dims = [''x''], da_shape = [2], da_data = DaskArray [5, 5] [[1, 1]], da_coords = []\<rparr>] = 1 \<and>
   xarray_reduce_groups factorize_spec
      [\<lparr>da_name = ''a'', da_dims = [''x''], da_shape = [2], da_data = NumpyArray [0, 1], da_coords = []\<rparr>,
       \<lparr>da_name = ''b'', da_dims = [''x''], da_shape = [2], da_data = DaskArray [5, 5] [[1, 1]], da_coords = []\<rparr>]
      None =
   Inl (ValueError ''Grouping by multiple variables will call compute dask variables.'')"
  by (simp add: lazy_keys_def is_dask_collection_def xarray_reduce_groups_def)

text \<open>
  Claim C7. With one grouping key and no expected groups, the expected groups are the
  sorted distinct values of the key when its data is a numpy array, and the group shape
  is their number; for any other kind of data \<open>NotImplementedError\<close> is raised.
\<close>
theorem single_key_expected_groups:
  "xarray_reduce_groups factorize [key] None =
     (if is_ndarray (da_data key)
      then Inr ([sorted_list_of_set (set (array_values (da_data key)))],
                [card (set (array_values (da_data key)))])
      else Inl (NotImplementedError
        ''Please provided expected_groups if not grouping by a numpy-backed DataArray''))"
  by (simp add: xarray_reduce_groups_def unique_def sorted_list_of_set_sort_remdups
      length_remdups_card_conv)

theorem single_key_expected_groups_witness:
  "xarray_reduce_groups factorize_spec
     [\<lparr>da_name = ''a'', da_dims = [''x''], da_shape = [4], da_data = NumpyArray [3, 1, 3, 2], da_coords = []\<rparr>] None =
   Inr ([[1, 2, 3]], [3]) \<and>
   xarray_reduce_groups factorize_spec
     [\<lparr>da_name = ''a'', da_dims = [''x''], da_shape = [4],
       da_data = DaskArray [3, 1, 3, 2] [[2, 2]], da_coords = []\<rparr>] None =
   Inl (NotImplementedError
        ''Please provided expected_groups if not grouping by a numpy-backed DataArray'')"
proof -
  have s: "sorted_list_of_set (set [3, 1, 3, 2 :: int]) = [1, 2, 3]"
    unfolding sorted_list_of_set_sort_remdups by simp
  have c: "card (set [3, 1, 3, 2 :: int]) = 3"
    unfolding length_remdups_card_conv[symmetric] by simp
  have t1: "xarray_reduce_groups factorize_spec
     [\<lparr>da_name = ''a'', da_dims = [''x''], da_shape = [4], da_data = NumpyArray [3, 1, 3, 2], da_coords = []\<rparr>] None =
     Inr ([sorted_list_of_set (set [3, 1, 3, 2])], [card (set [3, 1, 3, 2 :: int])])"
    using single_key_expected_groups[of factorize_spec
        "\<lparr>da_name = ''a'', da_dims = [''x''], da_shape = [4], da_data = NumpyArray [3, 1, 3, 2], da_coords = []\<rparr>"]
    by (simp only: data_array.select_convs is_ndarray.simps array_values.simps if_True)
  have t2: "xarray_reduce_groups factorize_spec
     [\<lparr>da_name = ''a'', da_dims = [''x''], da_shape = [4],
       da_data = DaskArray [3, 1, 3, 2] [[2, 2]], da_coords = []\<rparr>] None =
     Inl (NotImplementedError
        ''Please provided expected_groups if not grouping by a numpy-backed DataArray'')"
    using single_key_expected_groups[of factorize_spec
        "\<lparr>da_name = ''a'', da_dims = [''x''], da_shape = [4],
          da_data = DaskArray [3, 1, 3, 2] [[2, 2]], da_coords = []\<rparr>"]
    by (simp only: data_array.select_convs is_ndarray.simps if_False)
  show ?thesis using t1[unfolded s c] t2 by (rule conjI)
qed

section \<open>Row-major codes and the densified result\<close>

lemma valid_index_Nil: "valid_index [] idx \<longleftrightarrow> idx = []"
  by (simp add: valid_index_def)

lemma valid_index_Cons:
  "valid_index (d # ds) idx \<longleftrightarrow> (\<exists>i rest. idx = i # rest \<and> i < d \<and> valid_index ds rest)"
  by (cases idx) (auto simp: valid_index_def)

lemma block_bound:
  assumes "i < d" and "r < (p::nat)"
  shows "i * p + r < d * p"
proof -
  have "i * p + r < i * p + p" using assms(2) by simp
  also have "\<dots> = Suc i * p" by simp
  also have "\<dots> \<le> d * p" using assms(1) by (intro mult_le_mono1) simp
  finally show ?thesis .
qed

lemma ravel_c_bound: "valid_index shp idx \<Longrightarrow> ravel_c shp idx < prod_list shp"
proof (induction shp arbitrary: idx)
  case Nil
  then show ?case by (simp add: valid_index_Nil)
next
  case (Cons d ds)
  then obtain i rest where idx: "idx = i # rest" "i < d" "valid_index ds rest"
    by (auto simp: valid_index_Cons)
  have "ravel_c ds rest < prod_list ds" using Cons.IH idx(3) by simp
  then show ?case using block_bound[OF idx(2)] by (simp add: idx(1))
qed

lemma unravel_ravel: "valid_index shp idx \<Longrightarrow> unravel_c shp (ravel_c shp idx) = idx"
proof (induction shp arbitrary: idx)
  case Nil
  then show ?case by (simp add: valid_index_Nil)
next
  case (Cons d ds)
  then obtain i rest where idx: "idx = i # rest" "i < d" "valid_index ds rest"
    by (auto simp: valid_index_Cons)
  have r: "ravel_c ds rest < prod_list ds" using idx(3) by (rule ravel_c_bound)
  then have "(i * prod_list ds + ravel_c ds rest) div prod_list ds = i"
    and "(i * prod_list ds + ravel_c ds rest) mod prod_list ds = ravel_c ds rest"
    by simp_all
  then show ?case using Cons.IH[OF idx(3)] by (simp add: idx(1))
qed

lemma ravel_unravel:
  "code < prod_list shp \<Longrightarrow>
     valid_index shp (unravel_c shp code) \<and> ravel_c shp (unravel_c shp code) = code"
proof (induction shp arbitrary: code)
  case Nil
  then show ?case by (simp add: valid_index_Nil)
next
  case (Cons d ds)
  have lt: "code < d * prod_list ds" using Cons.prems by simp
  then have pos: "0 < prod_list ds" by (cases "prod_list ds = 0") auto
  have q: "code div prod_list ds < d"
    using lt pos by (simp add: less_mult_imp_div_less mult.commute)
  have "code mod prod_list ds < prod_list ds" using pos by simp
  then have "valid_index ds (unravel_c ds (code mod prod_list ds)) \<and>
      ravel_c ds (unravel_c ds (code mod prod_list ds)) = code mod prod_list ds"
    by (rule Cons.IH)
  then show ?case using q by (simp add: valid_index_Cons)
qed

lemma nd_get_reshape_c:
  "valid_index shp idx \<Longrightarrow> length xs = prod_list shp \<Longrightarrow>
     nd_get (reshape_c shp xs) idx = Some (xs ! ravel_c shp idx)"
proof (induction shp arbitrary: idx xs)
  case Nil
  then have "xs \<noteq> []" by auto
  then show ?case using Nil by (simp add: valid_index_Nil hd_conv_nth)
next
  case (Cons d ds)
  then obtain i rest where idx: "idx = i # rest" "i < d" "valid_index ds rest"
    by (auto simp: valid_index_Cons)
  define p where "p = prod_list ds"
  define block where "block = take p (drop (i * p) xs)"
  have r: "ravel_c ds rest < p" unfolding p_def using idx(3) by (rule ravel_c_bound)
  have len: "length xs = d * p" using Cons.prems(2) by (simp add: p_def)
  have "Suc i * p \<le> d * p" using idx(2) by (intro mult_le_mono1) simp
  then have "i * p + p \<le> length xs" using len by simp
  then have bl: "length block = p" by (simp add: block_def)
  have "nd_get (reshape_c ds block) rest = Some (block ! ravel_c ds rest)"
    using idx(3) bl by (intro Cons.IH) (simp_all add: p_def)
  also have "block ! ravel_c ds rest = xs ! (i * p + ravel_c ds rest)"
    using r \<open>i * p + p \<le> length xs\<close> by (simp add: block_def)
  finally show ?case
    using idx(2) by (simp add: idx(1) p_def[symmetric] block_def[symmetric])
qed

lemma index_of_None: "index_of xs y = None \<longleftrightarrow> y \<notin> set xs"
  by (induction xs) auto

lemma index_of_upt_from:
  "index_of [m..<m + k] c = (if m \<le> c \<and> c < m + k then Some (c - m) else None)"
proof (induction k arbitrary: m)
  case 0
  then show ?case by simp
next
  case (Suc k)
  have "[m..<m + Suc k] = m # [Suc m..<Suc m + k]" by (simp add: upt_conv_Cons)
  then show ?case using Suc[of "Suc m"] by auto
qed

lemma index_of_upt: "index_of [0..<n] c = (if c < n then Some c else None)"
  using index_of_upt_from[of 0 n c] by simp

lemma scatter_codes_nth:
  assumes "distinct codes" and "length vals = length codes" and "c < length buf"
  shows "fold (\<lambda>(code, v) buf. case index_of [0..<n] code of None \<Rightarrow> buf | Some p \<Rightarrow> buf[p := v])
           (zip codes vals) buf ! c =
         (case index_of codes c of
            Some p \<Rightarrow> if c < n then vals ! p else buf ! c
          | None \<Rightarrow> buf ! c)"
  using assms
proof (induction codes arbitrary: vals buf)
  case Nil
  then show ?case by simp
next
  case (Cons k codes)
  then obtain v vals' where vals: "vals = v # vals'" by (cases vals) auto
  define buf' where "buf' = (if k < n then buf[k := v] else buf)"
  have len': "c < length buf'" using Cons.prems(3) by (simp add: buf'_def)
  have IH: "fold (\<lambda>(code, v) buf. case index_of [0..<n] code of None \<Rightarrow> buf | Some p \<Rightarrow> buf[p := v])
           (zip codes vals') buf' ! c =
         (case index_of codes c of
            Some p \<Rightarrow> if c < n then vals' ! p else buf' ! c
          | None \<Rightarrow> buf' ! c)"
    using Cons.prems vals len' by (intro Cons.IH) auto
  have step: "fold (\<lambda>(code, v) buf. case index_of [0..<n] code of None \<Rightarrow> buf | Some p \<Rightarrow> buf[p := v])
           (zip (k # codes) vals) buf =
        fold (\<lambda>(code, v) buf. case index_of [0..<n] code of None \<Rightarrow> buf | Some p \<Rightarrow> buf[p := v])
           (zip codes vals') buf'"
    by (simp add: vals buf'_def index_of_upt)
  show ?case
  proof (cases "k = c")
    case True
    then have "index_of codes c = None" using Cons.prems(1) by (simp add: index_of_None)
    then show ?thesis
      unfolding step IH using True Cons.prems(3) by (simp add: vals buf'_def)
  next
    case False
    then have "buf' ! c = buf ! c" by (simp add: buf'_def)
    then show ?thesis
      unfolding step IH using False by (simp add: vals split: option.splits)
  qed
qed

lemma reindex_nth:
  assumes "distinct groups" and "length result = length groups" and "c < n"
  shows "reindex result groups [0..<n] fill ! c =
         (case index_of groups c of Some p \<Rightarrow> result ! p | None \<Rightarrow> fill)"
  unfolding reindex_def
  using scatter_codes_nth[OF assms(1,2), of c "replicate (length [0..<n]) fill" n] assms(3)
  by (simp split: option.splits)

lemma length_reindex: "length (reindex result groups to_codes fill) = length to_codes"
proof -
  have "\<And>buf. length (fold (\<lambda>(code, v) buf. case index_of to_codes code of None \<Rightarrow> buf | Some p \<Rightarrow> buf[p := v])
           zs buf) = length buf" for zs :: "(nat \<times> 'a) list"
    by (induction zs) (auto split: option.splits)
  then show ?thesis by (simp add: reindex_def)
qed

lemma wrapper_cell:
  assumes "1 < n_by" and "distinct groups" and "length result = length groups"
    and "valid_index shp idx"
  shows "\<exists>grid. wrapper n_by shp fill result groups = Inr grid \<and>
           nd_get grid idx =
           Some (case index_of groups (ravel_c shp idx) of Some p \<Rightarrow> result ! p | None \<Rightarrow> fill)"
proof -
  let ?flat = "reindex result groups [0..<prod_list shp] fill"
  have len: "length ?flat = prod_list shp" by (simp add: length_reindex)
  have w: "wrapper n_by shp fill result groups = Inr (reshape_c shp ?flat)"
    using assms(1) len by (simp add: wrapper_def reshape_def)
  have "nd_get (reshape_c shp ?flat) idx = Some (?flat ! ravel_c shp idx)"
    using assms(4) len by (rule nd_get_reshape_c)
  also have "?flat ! ravel_c shp idx =
      (case index_of groups (ravel_c shp idx) of Some p \<Rightarrow> result ! p | None \<Rightarrow> fill)"
    using assms(2,3) ravel_c_bound[OF assms(4)] by (rule reindex_nth)
  finally show ?thesis using w by simp
qed

text \<open>
  Claim C4, as the code has it. The \<open>reshape\<close> in \<open>wrapper\<close> reads the combined
  code in row-major order, the last key varying fastest:
  \<open>code = (idx_0 * shape_1 + idx_1) * shape_2 + \<dots>\<close>, which is \<open>ravel_c\<close>. Codes
  below the product of the shape and valid index tuples correspond one to one; the cell
  of the densified result at an index tuple holds the value the partial result has for
  the code of that tuple, or the fill value when the code is not covered. For the shape
  \<open>(2,3)\<close> the codes \<open>0..5\<close> are the pairs in row-major order, and a partial
  result for the codes \<open>1\<close> and \<open>4\<close> with fill value \<open>-1\<close> fills exactly the
  cells \<open>(0,1)\<close> and \<open>(1,1)\<close>.
\<close>

theorem row_major_codes_densified:
  "(valid_index shp idx \<longrightarrow>
      ravel_c shp idx < prod_list shp \<and> unravel_c shp (ravel_c shp idx) = idx) \<and>
   (code < prod_list shp \<longrightarrow>
      valid_index shp (unravel_c shp code) \<and> ravel_c shp (unravel_c shp code) = code) \<and>
   (1 < n_by \<longrightarrow> distinct groups \<longrightarrow> length result = length groups \<longrightarrow> valid_index shp idx \<longrightarrow>
      (\<exists>grid. wrapper n_by shp fill result groups = Inr grid \<and>
         nd_get grid idx =
         Some (case index_of groups (ravel_c shp idx) of
                 Some p \<Rightarrow> result ! p
               | None \<Rightarrow> fill))) \<and>
   map (unravel_c [2, 3]) [0, 1, 2, 3, 4, 5] = [[0, 0], [0, 1], [0, 2], [1, 0], [1, 1], [1, 2]] \<and>
   wrapper 2 [2, 3] (- 1 :: int) [a, b] [1, 4] =
     Inr (Axis [Axis [Cell (- 1), Cell a, Cell (- 1)], Axis [Cell (- 1), Cell b, Cell (- 1)]])"
proof (intro conjI impI)
  show "map (unravel_c [2, 3]) [0, 1, 2, 3, 4, 5] =
      [[0, 0], [0, 1], [0, 2], [1, 0], [1, 1], [1, 2]]"
    by simp
  have u: "[0..<6] = [0, 1, 2, 3, 4, 5]" "[0..<2] = [0, 1]" by (simp_all add: upt_conv_Cons)
  show "wrapper 2 [2, 3] (- 1 :: int) [a, b] [1, 4] =
     Inr (Axis [Axis [Cell (- 1), Cell a, Cell (- 1)], Axis [Cell (- 1), Cell b, Cell (- 1)]])"
    by (simp add: wrapper_def reshape_def reindex_def u numeral_eq_Suc)
qed (simp_all add: ravel_c_bound unravel_ravel ravel_unravel wrapper_cell)

theorem row_major_codes_densified_witness:
  "valid_index [2, 3] [1, 1] \<and> ravel_c [2, 3] [1, 1] = 4 \<and> unravel_c [2, 3] 4 = [1, 1] \<and>
   (4::nat) < prod_list [2, 3] \<and> (1::nat) < 2 \<and> distinct [1, 4 :: nat] \<and>
   length [10, 40 :: int] = length [1, 4 :: nat] \<and>
   (\<exists>grid. wrapper 2 [2, 3] (- 1 :: int) [10, 40] [1, 4] = Inr grid \<and>
      nd_get grid [1, 1] = Some 40)"
proof -
  have h1: "valid_index [2, 3] [1, 1]" by (simp add: valid_index_def)
  have h2: "(4::nat) < prod_list [2, 3]" by simp
  have h3: "(1::nat) < 2" by simp
  have h4: "distinct [1, 4 :: nat]" by simp
  have h5: "length [10, 40 :: int] = length [1, 4 :: nat]" by simp
  have r: "ravel_c [2, 3] [1, 1] = 4" by simp
  have i: "index_of [1, 4 :: nat] 4 = Some 1" by simp
  show ?thesis
    using h1 h2 h3 h4 h5 r i
      row_major_codes_densified[where shp = "[2, 3]" and idx = "[1, 1]" and code = 4
        and n_by = 2 and groups = "[1, 4]" and result = "[10, 40 :: int]" and fill = "- 1 :: int"
        and a = 10 and b = 40]
    by simp
qed

text \<open>
  With the formula of the claim, \<open>idx_0 + idx_1*shape_0\<close>, the index \<open>(1,0)\<close> has
  code \<open>1\<close> and \<open>(0,1)\<close> has code \<open>2\<close>. The densified result for the codes
  \<open>1\<close> and \<open>4\<close> however has the fill value at \<open>(1,0)\<close> and the value of code
  \<open>1\<close> at \<open>(0,1)\<close>: the densification does not invert that formula.
\<close>

theorem spec_code_formula_not_inverted:
  "linearize_spec [2, 3] [1, 0] = 1 \<and> linearize_spec [2, 3] [0, 1] = 2 \<and>
   linearize_spec [2, 3] [0, 2] = 4 \<and> linearize_spec [2, 3] [1, 1] = 3 \<and>
   wrapper 2 [2, 3] (- 1) [10, 40 :: int] [1, 4] =
     Inr (Axis [Axis [Cell (- 1), Cell 10, Cell (- 1)], Axis [Cell (- 1), Cell 40, Cell (- 1)]]) \<and>
   nd_get (Axis [Axis [Cell (- 1), Cell 10, Cell (- 1)], Axis [Cell (- 1), Cell 40, Cell (- 1 :: int)]])
     [1, 0] = Some (- 1) \<and>
   nd_get (Axis [Axis [Cell (- 1), Cell 10, Cell (- 1)], Axis [Cell (- 1), Cell 40, Cell (- 1 :: int)]])
     [0, 1] = Some 10"
proof -
  have u: "[0..<6] = [0, 1, 2, 3, 4, 5]" "[0..<2] = [0, 1]" by (simp_all add: upt_conv_Cons)
  show ?thesis
    by (simp add: wrapper_def reshape_def reindex_def u numeral_eq_Suc)
qed

section \<open>The claim about \<open>rechunk_to_group_boundaries\<close>\<close>

lemma optimal_chunks_Inr_sum:
  "get_optimal_chunks_for_groups chunks labels = Inr out \<Longrightarrow> sum_list out = sum_list chunks"
  unfolding get_optimal_chunks_for_groups_def
  by (auto simp: Let_def split: if_splits sum.splits)

text \<open>
  Claim C9. For a chunked array whose chunks along \<open>dim\<close> are a partitioning of that
  dimension, and labels that meet the contract of the optimiser (non-decreasing group
  codes, as many as the dimension is long), the optimiser returns some \<open>newchunks\<close>.
  If \<open>newchunks\<close> equals the current chunks along \<open>dim\<close>, the function returns the
  address it was given and the store is as before, with no call of \<open>chunk\<close>; otherwise
  it makes exactly one call of \<open>chunk\<close>, for \<open>dim\<close> with \<open>newchunks\<close>, and returns
  the address of a new array that has the same values, \<open>newchunks\<close> along \<open>dim\<close>
  and the chunks of every other axis as they were. The array given stays in the store
  unchanged.
\<close>

theorem rechunk_only_when_chunks_differ:
  assumes ref: "array < length (objects w)"
    and axis: "index_of (da_dims (objects w ! array)) dim = Some axis"
    and dask: "da_data (objects w ! array) = DaskArray vs chs"
    and rank: "axis < length chs"
    and size: "sum_list (chs ! axis) = da_shape (objects w ! array) ! axis"
    and part: "partitioning (chs ! axis)"
    and srt: "sorted (array_values labels_data)"
    and codes: "group_codes (array_values labels_data)"
    and len: "int (length (array_values labels_data)) = sum_list (chs ! axis)"
  shows "\<exists>newchunks.
           get_optimal_chunks_for_groups (chs ! axis) (array_values labels_data) = Inr newchunks \<and>
           partitioning newchunks \<and>
           (newchunks = chs ! axis \<longrightarrow>
              rechunk_to_group_boundaries w array dim labels_data = Inr (w, array)) \<and>
           (newchunks \<noteq> chs ! axis \<longrightarrow>
              (\<exists>w'. rechunk_to_group_boundaries w array dim labels_data =
                      Inr (w', length (objects w)) \<and>
                    chunk_calls w' = chunk_calls w @ [(array, dim, newchunks)] \<and>
                    objects w' = objects w @
                      [(objects w ! array)\<lparr>da_data := DaskArray vs (chs[axis := newchunks])\<rparr>] \<and>
                    (\<forall>j. j \<noteq> axis \<longrightarrow> chs[axis := newchunks] ! j = chs ! j) \<and>
                    chs[axis := newchunks] ! axis = newchunks))"
proof -
  from optimal_chunks_aligned[OF part srt codes len] obtain newchunks where
    opt: "get_optimal_chunks_for_groups (chs ! axis) (array_values labels_data) = Inr newchunks"
    and np: "partitioning newchunks" and sum: "sum_list newchunks = sum_list (chs ! axis)"
    by blast
  have g: "np_getitem chs (int axis) = Inr (chs ! axis)"
    using rank by (simp add: np_getitem_def)
  have s: "sum_list newchunks = da_shape (objects w ! array) ! axis"
    using sum size by simp
  have nonneg: "\<not> list_ex (\<lambda>c. c < 0) newchunks"
    using np by (auto simp: partitioning_def list_all_iff list_ex_iff)
  have "(newchunks = chs ! axis \<longrightarrow>
              rechunk_to_group_boundaries w array dim labels_data = Inr (w, array)) \<and>
           (newchunks \<noteq> chs ! axis \<longrightarrow>
              (\<exists>w'. rechunk_to_group_boundaries w array dim labels_data =
                      Inr (w', length (objects w)) \<and>
                    chunk_calls w' = chunk_calls w @ [(array, dim, newchunks)] \<and>
                    objects w' = objects w @
                      [(objects w ! array)\<lparr>da_data := DaskArray vs (chs[axis := newchunks])\<rparr>] \<and>
                    (\<forall>j. j \<noteq> axis \<longrightarrow> chs[axis := newchunks] ! j = chs ! j) \<and>
                    chs[axis := newchunks] ! axis = newchunks))"
    using rank nonneg
    by (simp add: rechunk_to_group_boundaries_def get_axis_num_def axis dask g opt chunk_def s
        Let_def)
  then show ?thesis using opt np by blast
qed

theorem rechunk_only_when_chunks_differ_witness:
  "(0::nat) < length (objects \<lparr>objects = [\<lparr>da_name = ''t'', da_dims = [''time''], da_shape = [9],
        da_data = DaskArray [1, 2, 3, 4, 5, 6, 7, 8, 9] [[4, 3, 2]]\<rparr>], chunk_calls = []\<rparr>) \<and>
   partitioning [4, 3, 2] \<and> sorted [0, 0, 0, 1, 1, 1, 1, 2, 2 :: int] \<and>
   group_codes [0, 0, 0, 1, 1, 1, 1, 2, 2] \<and>
   int (length [0, 0, 0, 1, 1, 1, 1, 2, 2 :: int]) = sum_list [4, 3, 2] \<and>
   get_optimal_chunks_for_groups [4, 3, 2] [0, 0, 0, 1, 1, 1, 1, 2, 2] = Inr [3, 4, 2] \<and>
   rechunk_to_group_boundaries
     \<lparr>objects = [\<lparr>da_name = ''t'', da_dims = [''time''], da_shape = [9],
        da_data = DaskArray [1, 2, 3, 4, 5, 6, 7, 8, 9] [[4, 3, 2]]\<rparr>], chunk_calls = []\<rparr>
     0 ''time'' (NumpyArray [0, 0, 0, 1, 1, 1, 1, 2, 2]) =
   Inr (\<lparr>objects = [\<lparr>da_name = ''t'', da_dims = [''time''], da_shape = [9],
          da_data = DaskArray [1, 2, 3, 4, 5, 6, 7, 8, 9] [[4, 3, 2]]\<rparr>,
        \<lparr>da_name = ''t'', da_dims = [''time''], da_shape = [9],
          da_data = DaskArray [1, 2, 3, 4, 5, 6, 7, 8, 9] [[3, 4, 2]]\<rparr>],
        chunk_calls = [(0, ''time'', [3, 4, 2])]\<rparr>, 1)"
proof -
  define w where "w = \<lparr>objects = [\<lparr>da_name = ''t'', da_dims = [''time''], da_shape = [9],
        da_data = DaskArray [1, 2, 3, 4, 5, 6, 7, 8, 9] [[4, 3, 2]]\<rparr>], chunk_calls = []\<rparr>"
  have h1: "(0::nat) < length (objects w)" by (simp add: w_def)
  have h2: "index_of (da_dims (objects w ! 0)) ''time'' = Some 0" by (simp add: w_def)
  have h3: "da_data (objects w ! 0) = DaskArray [1, 2, 3, 4, 5, 6, 7, 8, 9] [[4, 3, 2]]"
    by (simp add: w_def)
  have h4: "(0::nat) < length [[4, 3, 2 :: int]]" by simp
  have h5: "sum_list ([[4, 3, 2]] ! 0) = da_shape (objects w ! 0) ! 0" by (simp add: w_def)
  have p1: "partitioning [4, 3, 2]" by (simp add: partitioning_def)
  have p2: "sorted [0, 0, 0, 1, 1, 1, 1, 2, 2 :: int]" by simp
  have p3: "group_codes [0, 0, 0, 1, 1, 1, 1, 2, 2]" by (simp add: group_codes_def)
  have p4: "int (length [0, 0, 0, 1, 1, 1, 1, 2, 2 :: int]) = sum_list [4, 3, 2]" by simp
  have h6: "partitioning ([[4, 3, 2]] ! 0)" using p1 by simp
  have h7: "sorted (array_values (NumpyArray [0, 0, 0, 1, 1, 1, 1, 2, 2]))" by simp
  have h8: "group_codes (array_values (NumpyArray [0, 0, 0, 1, 1, 1, 1, 2, 2]))"
    using p3 by simp
  have h9: "int (length (array_values (NumpyArray [0, 0, 0, 1, 1, 1, 1, 2, 2]))) =
      sum_list ([[4, 3, 2]] ! 0)" by simp
  have e: "get_optimal_chunks_for_groups [4, 3, 2] [0, 0, 0, 1, 1, 1, 1, 2, 2] = Inr [3, 4, 2]"
    by code_simp
  from rechunk_only_when_chunks_differ[OF h1 h2 h3 h4 h5 h6 h7 h8 h9]
  obtain newchunks where n: "get_optimal_chunks_for_groups ([[4, 3, 2]] ! 0)
        (array_values (NumpyArray [0, 0, 0, 1, 1, 1, 1, 2, 2])) = Inr newchunks"
      "newchunks \<noteq> [[4, 3, 2]] ! 0 \<longrightarrow>
         (\<exists>w'. rechunk_to_group_boundaries w 0 ''time''
                 (NumpyArray [0, 0, 0, 1, 1, 1, 1, 2, 2]) = Inr (w', length (objects w)) \<and>
               chunk_calls w' = chunk_calls w @ [(0, ''time'', newchunks)] \<and>
               objects w' = objects w @
                 [(objects w ! 0)\<lparr>da_data := DaskArray [1, 2, 3, 4, 5, 6, 7, 8, 9]
                    ([[4, 3, 2]][0 := newchunks])\<rparr>])"
    by blast
  have nc: "newchunks = [3, 4, 2]" using n(1) e by simp
  from n(2) obtain w' where w': "rechunk_to_group_boundaries w 0 ''time''
        (NumpyArray [0, 0, 0, 1, 1, 1, 1, 2, 2]) = Inr (w', length (objects w))"
      "chunk_calls w' = chunk_calls w @ [(0, ''time'', [3, 4, 2])]"
      "objects w' = objects w @
         [(objects w ! 0)\<lparr>da_data := DaskArray [1, 2, 3, 4, 5, 6, 7, 8, 9] ([[4, 3, 2]][0 := [3, 4, 2]])\<rparr>]"
    unfolding nc by auto
  have "w' = \<lparr>objects = [\<lparr>da_name = ''t'', da_dims = [''time''], da_shape = [9],
          da_data = DaskArray [1, 2, 3, 4, 5, 6, 7, 8, 9] [[4, 3, 2]]\<rparr>,
        \<lparr>da_name = ''t'', da_dims = [''time''], da_shape = [9],
          da_data = DaskArray [1, 2, 3, 4, 5, 6, 7, 8, 9] [[3, 4, 2]]\<rparr>],
        chunk_calls = [(0, ''time'', [3, 4, 2])]\<rparr>"
    using w'(2,3) by (cases w') (simp add: w_def)
  then show ?thesis using w'(1) h1 e p1 p2 p3 p4 by (simp add: w_def)
qed

section \<open>The claim about the labels of \<open>resample_reduce\<close>\<close>

lemma times_ones: "idx_times_ones idx k = (if k < 0
    then Inl (ValueError ''negative dimensions are not allowed'')
    else Inr (replicate (nat k) (int idx)))"
  by (simp add: idx_times_ones_def map_replicate)

lemma tostack_tiles:
  "tiles n p ss \<Longrightarrow>
   \<exists>arrays. tostack (Some n) k ss = Inr arrays \<and> arrays \<noteq> [] \<and>
     int (length (concat arrays)) = n - p \<and> sorted (concat arrays) \<and>
     (\<forall>x\<in>set (concat arrays). int k \<le> x) \<and>
     (\<forall>i<length ss. p \<le> start (ss ! i) \<and>
        (\<forall>q. start (ss ! i) \<le> q \<and> q < slice_stop n (ss ! i) \<longrightarrow>
           concat arrays ! nat (q - p) = int (k + i)))"
proof (induction n p ss arbitrary: k rule: tiles.induct)
  case (1 n p)
  then show ?case by simp
next
  case (2 n p s)
  then have s: "start s = p" "p \<le> n" "slice_stop n s = n"
    by (auto simp: slice_stop_def)
  have t: "tostack (Some n) k [s] = Inr [replicate (nat (n - p)) (int k)]"
    using s "2.prems" by (auto simp: times_ones)
  show ?case
    unfolding t using s by (auto simp: nth_Cons')
next
  case (3 n p s t ss)
  from "3.prems" obtain e where e: "start s = p" "stop s = Some e" "p \<le> e"
      and rest: "tiles n e (t # ss)"
    by (auto split: option.splits)
  from "3.IH"[OF e(2) rest, of "Suc k"] obtain arrays where
    arrays: "tostack (Some n) (Suc k) (t # ss) = Inr arrays" "arrays \<noteq> []"
      "int (length (concat arrays)) = n - e" "sorted (concat arrays)"
      "\<forall>x\<in>set (concat arrays). int (Suc k) \<le> x"
      "\<forall>i<length (t # ss). e \<le> start ((t # ss) ! i) \<and>
        (\<forall>q. start ((t # ss) ! i) \<le> q \<and> q < slice_stop n ((t # ss) ! i) \<longrightarrow>
           concat arrays ! nat (q - e) = int (Suc k + i))"
    by blast
  define head where "head = replicate (nat (e - p)) (int k)"
  have stop_s: "slice_stop n s = e" using e(2) by (simp add: slice_stop_def)
  have ts: "tostack (Some n) k (s # t # ss) = Inr (head # arrays)"
    using e arrays(1) by (simp add: times_ones head_def)
  have lh: "int (length head) = e - p" using e(3) by (simp add: head_def)
  have len: "int (length (concat (head # arrays))) = n - p"
    using arrays(3) lh by simp
  have above: "\<forall>x\<in>set (concat arrays). int k \<le> x"
    using arrays(5) by fastforce
  have srt: "sorted (concat (head # arrays))"
    using arrays(4) above by (simp add: sorted_append head_def)
  have lower: "\<forall>x\<in>set (concat (head # arrays)). int k \<le> x"
    using above by (auto simp: head_def)
  have pos: "\<forall>i<length (s # t # ss). p \<le> start ((s # t # ss) ! i) \<and>
        (\<forall>q. start ((s # t # ss) ! i) \<le> q \<and> q < slice_stop n ((s # t # ss) ! i) \<longrightarrow>
           concat (head # arrays) ! nat (q - p) = int (k + i))"
  proof (intro allI impI)
    fix i assume i: "i < length (s # t # ss)"
    show "p \<le> start ((s # t # ss) ! i) \<and>
        (\<forall>q. start ((s # t # ss) ! i) \<le> q \<and> q < slice_stop n ((s # t # ss) ! i) \<longrightarrow>
           concat (head # arrays) ! nat (q - p) = int (k + i))"
    proof (cases i)
      case 0
      have "\<And>q. p \<le> q \<Longrightarrow> q < e \<Longrightarrow> concat (head # arrays) ! nat (q - p) = int k"
      proof -
        fix q :: int assume q: "p \<le> q" "q < e"
        then have "nat (q - p) < length head" using lh by linarith
        then show "concat (head # arrays) ! nat (q - p) = int k"
          by (simp add: nth_append head_def)
      qed
      then show ?thesis using 0 e(1) stop_s by simp
    next
      case (Suc j)
      then have j: "j < length (t # ss)" using i by simp
      have st: "e \<le> start ((t # ss) ! j)"
        and cells: "\<And>q. start ((t # ss) ! j) \<le> q \<Longrightarrow> q < slice_stop n ((t # ss) ! j) \<Longrightarrow>
           concat arrays ! nat (q - e) = int (Suc k + j)"
        using arrays(6) j by blast+
      have "\<And>q. start ((t # ss) ! j) \<le> q \<Longrightarrow> q < slice_stop n ((t # ss) ! j) \<Longrightarrow>
           concat (head # arrays) ! nat (q - p) = int (k + i)"
      proof -
        fix q assume q: "start ((t # ss) ! j) \<le> q" "q < slice_stop n ((t # ss) ! j)"
        have ge: "e \<le> q" using st q(1) by simp
        then have "\<not> nat (q - p) < length head" using lh by linarith
        moreover have "nat (q - p) - length head = nat (q - e)" using lh ge e(3) by linarith
        ultimately have "concat (head # arrays) ! nat (q - p) = concat arrays ! nat (q - e)"
          by (simp add: nth_append)
        then show "concat (head # arrays) ! nat (q - p) = int (k + i)"
          using cells[OF q] Suc by simp
      qed
      then show ?thesis using Suc st e(3) by simp
    qed
  qed
  show ?case using ts len srt lower pos by blast
qed

text \<open>
  Claim C10. For the slices of a resampler over a dimension of length \<open>n\<close>, the label
  array that \<open>resample_reduce\<close> builds holds the value \<open>i\<close> at every position of
  the \<open>i\<close>-th slice; its length is \<open>n\<close>, it is non-decreasing and non-negative, which
  is the precondition of the chunk optimiser; and it is this array that
  \<open>resample_reduce\<close> passes to \<open>rechunk_to_group_boundaries\<close> when the array is
  chunked. The run values are far below the range of \<open>int32\<close>.
\<close>

theorem resample_labels_meet_precondition:
  assumes "tiles n 0 group_indices"
    and "index_of (da_dims (objects w ! array)) dim = Some axis"
    and "da_shape (objects w ! array) ! axis = n"
  shows "\<exists>labels. resample_labels (Some n) group_indices = Inr labels \<and>
           int (length labels) = n \<and> sorted labels \<and> group_codes labels \<and>
           (\<forall>i<length group_indices. \<forall>q.
              start (group_indices ! i) \<le> q \<and> q < slice_stop n (group_indices ! i) \<longrightarrow>
              labels ! nat q = int i) \<and>
           resample_reduce_rechunk w array dim group_indices =
             (if array_chunks (da_data (objects w ! array)) \<noteq> None
              then (case rechunk_to_group_boundaries w array dim (NumpyArray labels) of
                      Inl e \<Rightarrow> Inl e
                    | Inr (w', array') \<Rightarrow> Inr (w', array', labels))
              else Inr (w, array, labels))"
proof -
  from tostack_tiles[OF assms(1), of 0] obtain arrays where
    a: "tostack (Some n) 0 group_indices = Inr arrays" "arrays \<noteq> []"
      "int (length (concat arrays)) = n - 0" "sorted (concat arrays)"
      "\<forall>x\<in>set (concat arrays). int 0 \<le> x"
      "\<forall>i<length group_indices. 0 \<le> start (group_indices ! i) \<and>
        (\<forall>q. start (group_indices ! i) \<le> q \<and> q < slice_stop n (group_indices ! i) \<longrightarrow>
           concat arrays ! nat (q - 0) = int (0 + i))"
    by blast
  have r: "resample_labels (Some n) group_indices = Inr (concat arrays)"
    using a(1,2) by (simp add: resample_labels_def hstack_def)
  have g: "group_codes (concat arrays)"
    using a(5) by (simp add: group_codes_def list_all_iff)
  have "resample_reduce_rechunk w array dim group_indices =
             (if array_chunks (da_data (objects w ! array)) \<noteq> None
              then (case rechunk_to_group_boundaries w array dim (NumpyArray (concat arrays)) of
                      Inl e \<Rightarrow> Inl e
                    | Inr (w', array') \<Rightarrow> Inr (w', array', concat arrays))
              else Inr (w, array, concat arrays))"
    by (simp add: resample_reduce_rechunk_def assms(2,3) r)
  then show ?thesis using r g a(3,4,6) by simp
qed

theorem resample_labels_meet_precondition_witness:
  "tiles 9 0 [\<lparr>start = 0, stop = Some 3\<rparr>, \<lparr>start = 3, stop = Some 7\<rparr>, \<lparr>start = 7, stop = None\<rparr>] \<and>
   resample_labels (Some 9)
     [\<lparr>start = 0, stop = Some 3\<rparr>, \<lparr>start = 3, stop = Some 7\<rparr>, \<lparr>start = 7, stop = None\<rparr>] =
     Inr [0, 0, 0, 1, 1, 1, 1, 2, 2] \<and>
   (\<exists>labels. resample_labels (Some 9)
        [\<lparr>start = 0, stop = Some 3\<rparr>, \<lparr>start = 3, stop = Some 7\<rparr>, \<lparr>start = 7, stop = None\<rparr>] =
        Inr labels \<and>
      int (length labels) = 9 \<and> sorted labels \<and> group_codes labels)"
proof -
  define w where "w = \<lparr>objects = [\<lparr>da_name = ''t'', da_dims = [''time''], da_shape = [9],
        da_data = DaskArray [1, 2, 3, 4, 5, 6, 7, 8, 9] [[4, 3, 2]]\<rparr>], chunk_calls = []\<rparr>"
  have h1: "tiles 9 0
      [\<lparr>start = 0, stop = Some 3\<rparr>, \<lparr>start = 3, stop = Some 7\<rparr>, \<lparr>start = 7, stop = None\<rparr>]"
    by simp
  have h2: "index_of (da_dims (objects w ! 0)) ''time'' = Some 0" by (simp add: w_def)
  have h3: "da_shape (objects w ! 0) ! 0 = 9" by (simp add: w_def)
  have e: "resample_labels (Some 9)
     [\<lparr>start = 0, stop = Some 3\<rparr>, \<lparr>start = 3, stop = Some 7\<rparr>, \<lparr>start = 7, stop = None\<rparr>] =
     Inr [0, 0, 0, 1, 1, 1, 1, 2, 2]"
    by (simp add: resample_labels_def hstack_def idx_times_ones_def numeral_eq_Suc)
  show ?thesis
    using h1 e resample_labels_meet_precondition[OF h1 h2 h3] by blast
qed

end
